theory Spec2Isabelle
  imports Complex_Main "HOL-Library.Product_Lexorder" "HOL-Library.Multiset"
begin

section \<open>Arrays\<close>

text \<open>
  The functions of \<^verbatim>\<open>porespy/metrics/__funcs__.py\<close> work on N-dimensional arrays.
  An array is its shape and the value read at every index; an index is a list of
  coordinates, one per dimension. Only the values at indices inside the shape are part
  of the array: every statement below reads an array at such indices only.
  The image arguments are boolean arrays (the docstrings: "void marked as True").
\<close>

record 'a ndarray =
  shape :: "nat list"
  item :: "nat list \<Rightarrow> 'a"

definition ndim :: "'a ndarray \<Rightarrow> nat" where
  "ndim a = length (shape a)"

text \<open>All indices of a shape, in row-major (C) order, as \<^verbatim>\<open>numpy.ndindex\<close> lists them.\<close>

fun indices :: "nat list \<Rightarrow> nat list list" where
  "indices [] = [[]]"
| "indices (n # ns) = concat (map (\<lambda>i. map ((#) i) (indices ns)) [0..<n])"

definition in_bounds :: "nat list \<Rightarrow> nat list \<Rightarrow> bool" where
  "in_bounds sh idx = list_all2 (<) idx sh"

text \<open>The flattened values, and the indices of the true cells (\<^verbatim>\<open>numpy.argwhere\<close>).\<close>

definition flat :: "'a ndarray \<Rightarrow> 'a list" where
  "flat a = map (item a) (indices (shape a))"

definition marked :: "bool ndarray \<Rightarrow> nat list list" where
  "marked a = filter (item a) (indices (shape a))"

text \<open>
  Python exceptions are values: \<open>Exception msg\<close> is the \<^verbatim>\<open>raise Exception(msg)\<close> of
  the source, the others are raised by Python and the array library.
\<close>

datatype error =
  Exception string
  | IndexError
  | AxisError
  | ValueError
  | TypeError
  | UnboundLocalError

text \<open>What a caller sees of a result: the error, or the shape and the flattened values.\<close>

definition view :: "error + 'a ndarray \<Rightarrow> error + nat list \<times> 'a list" where
  "view r = (case r of Inl e \<Rightarrow> Inl e | Inr a \<Rightarrow> Inr (shape a, flat a))"

subsection \<open>Index assignment on a one-dimensional integer array\<close>

text \<open>
  \<^verbatim>\<open>xs[i] = v\<close>: a negative index counts from the end, an index outside
  \<open>[-n, n)\<close> raises IndexError.
\<close>

definition setitem :: "int list \<Rightarrow> int \<Rightarrow> int \<Rightarrow> error + int list" where
  "setitem xs i v =
     (let n = int (length xs) in
      if i < - n \<or> n \<le> i then Inl IndexError
      else Inr (xs[nat (if i < 0 then i + n else i) := v]))"

subsection \<open>moveaxis\<close>

text \<open>
  \<^verbatim>\<open>numpy.moveaxis(a, source, destination)\<close>: both axis lists are normalised
  (AxisError outside \<open>[-ndim, ndim)\<close>, ValueError on a repeated axis), the axes that
  are not moved keep their order, every moved axis is inserted at its destination in the
  order of the sorted (destination, source) pairs, and the array is transposed by the
  resulting order.
\<close>

definition normalize_axis_index :: "int \<Rightarrow> nat \<Rightarrow> error + nat" where
  "normalize_axis_index ax n =
     (if ax < - int n \<or> int n \<le> ax then Inl AxisError
      else Inr (nat (if ax < 0 then ax + int n else ax)))"

fun normalize_axes :: "int list \<Rightarrow> nat \<Rightarrow> error + nat list" where
  "normalize_axes [] n = Inr []"
| "normalize_axes (ax # axs) n =
     (case normalize_axis_index ax n of
        Inl e \<Rightarrow> Inl e
      | Inr d \<Rightarrow> (case normalize_axes axs n of Inl e \<Rightarrow> Inl e | Inr ds \<Rightarrow> Inr (d # ds)))"

definition normalize_axis_tuple :: "int list \<Rightarrow> nat \<Rightarrow> error + nat list" where
  "normalize_axis_tuple axs n =
     (case normalize_axes axs n of
        Inl e \<Rightarrow> Inl e
      | Inr ds \<Rightarrow> if distinct ds then Inr ds else Inl ValueError)"

definition list_insert :: "nat \<Rightarrow> 'a \<Rightarrow> 'a list \<Rightarrow> 'a list" where
  "list_insert i x xs = take i xs @ x # drop i xs"

fun position :: "'a \<Rightarrow> 'a list \<Rightarrow> nat" where
  "position x [] = 0"
| "position x (y # ys) = (if x = y then 0 else Suc (position x ys))"

text \<open>
  \<^verbatim>\<open>a.transpose(order)\<close>: dimension \<open>j\<close> of the result is dimension \<open>order ! j\<close>
  of \<open>a\<close>.
\<close>

definition transpose_nd :: "'a ndarray \<Rightarrow> nat list \<Rightarrow> 'a ndarray" where
  "transpose_nd a order =
     \<lparr>shape = map (\<lambda>j. shape a ! j) order,
      item = (\<lambda>idx. item a (map (\<lambda>d. idx ! position d order) [0..<length order]))\<rparr>"

definition moveaxis :: "'a ndarray \<Rightarrow> int list \<Rightarrow> int list \<Rightarrow> error + 'a ndarray" where
  "moveaxis a source destination =
     (case normalize_axis_tuple source (ndim a) of
        Inl e \<Rightarrow> Inl e
      | Inr src \<Rightarrow>
         (case normalize_axis_tuple destination (ndim a) of
            Inl e \<Rightarrow> Inl e
          | Inr dst \<Rightarrow>
             if length src \<noteq> length dst then Inl ValueError
             else Inr (transpose_nd a
                    (fold (\<lambda>(d, s) order. list_insert d s order) (sort (zip dst src))
                       (filter (\<lambda>n. n \<notin> set src) [0..<ndim a])))))"

subsection \<open>atleast_3d, squeeze, zeros_like, slices, products\<close>

text \<open>
  \<^verbatim>\<open>numpy.atleast_3d\<close>: a scalar becomes \<open>(1,1,1)\<close>, a vector of length \<open>n\<close>
  becomes \<open>(1,n,1)\<close>, an \<open>m \<times> n\<close> matrix becomes \<open>(m,n,1)\<close>, anything else is
  returned as it is.
\<close>

definition atleast_3d :: "'a ndarray \<Rightarrow> 'a ndarray" where
  "atleast_3d a =
     (case shape a of
        [] \<Rightarrow> \<lparr>shape = [1, 1, 1], item = (\<lambda>idx. item a [])\<rparr>
      | [n] \<Rightarrow> \<lparr>shape = [1, n, 1], item = (\<lambda>idx. item a [idx ! 1])\<rparr>
      | [m, n] \<Rightarrow> \<lparr>shape = [m, n, 1], item = (\<lambda>idx. item a [idx ! 0, idx ! 1])\<rparr>
      | _ \<Rightarrow> a)"

text \<open>
  \<^verbatim>\<open>numpy.squeeze\<close> removes every dimension of extent one, not only a trailing one:
  an index of the result is read in the argument with a zero put back at each removed
  dimension.
\<close>

fun unsqueeze_index :: "nat list \<Rightarrow> nat list \<Rightarrow> nat list" where
  "unsqueeze_index [] idx = []"
| "unsqueeze_index (n # ns) idx =
     (if n = 1 then 0 # unsqueeze_index ns idx
      else (case idx of [] \<Rightarrow> [] | i # rest \<Rightarrow> i # unsqueeze_index ns rest))"

definition squeeze :: "'a ndarray \<Rightarrow> 'a ndarray" where
  "squeeze a =
     \<lparr>shape = filter (\<lambda>n. n \<noteq> 1) (shape a),
      item = (\<lambda>idx. item a (unsqueeze_index (shape a) idx))\<rparr>"

definition zeros_like :: "'a ndarray \<Rightarrow> 'b \<Rightarrow> 'b ndarray" where
  "zeros_like a z = \<lparr>shape = shape a, item = (\<lambda>idx. z)\<rparr>"

text \<open>
  A slice \<^verbatim>\<open>start::step\<close> with no stop (\<^verbatim>\<open>:\<close> is \<open>Slice 0 1\<close>). The steps of
  the source are \<open>4 + 2 * spacing\<close> with \<open>spacing \<ge> 0\<close>, so they are positive.
\<close>

datatype slice = Slice int int

fun in_slice :: "slice \<Rightarrow> nat \<Rightarrow> bool" where
  "in_slice (Slice start step) i = (start \<le> int i \<and> (int i - start) mod step = 0)"

text \<open>
  \<^verbatim>\<open>a[s0, s1, s2] = v\<close>: the cells whose leading coordinates lie in the slices get
  \<open>v\<close>; more slices than dimensions is an IndexError.
\<close>

definition setitem_slices :: "'a ndarray \<Rightarrow> slice list \<Rightarrow> 'a \<Rightarrow> error + 'a ndarray" where
  "setitem_slices a sls v =
     (if ndim a < length sls then Inl IndexError
      else Inr \<lparr>shape = shape a,
                item = (\<lambda>idx. if list_all (\<lambda>(sl, i). in_slice sl i) (zip sls idx) then v
                              else item a idx)\<rparr>)"

text \<open>
  Elementwise products of arrays of one shape (the source only multiplies an array with
  one made by \<^verbatim>\<open>zeros_like\<close> of it, or with one of its own shape): of two boolean
  arrays, and of an integer array with a boolean one.
\<close>

definition mult_bool :: "bool ndarray \<Rightarrow> bool ndarray \<Rightarrow> bool ndarray" where
  "mult_bool a b = \<lparr>shape = shape a, item = (\<lambda>idx. item a idx \<and> item b idx)\<rparr>"

definition mult_int_bool :: "int ndarray \<Rightarrow> bool ndarray \<Rightarrow> int ndarray" where
  "mult_int_bool a b = \<lparr>shape = shape a, item = (\<lambda>idx. if item b idx then item a idx else 0)\<rparr>"

definition map_nd :: "('a \<Rightarrow> 'b) \<Rightarrow> 'a ndarray \<Rightarrow> 'b ndarray" where
  "map_nd f a = \<lparr>shape = shape a, item = (\<lambda>idx. f (item a idx))\<rparr>"

section \<open>Connected components\<close>

text \<open>
  \<^verbatim>\<open>scipy.ndimage.label\<close> with its default structuring element: two cells are
  neighbours when they differ by one in exactly one coordinate. Every connected set of
  nonzero cells gets a label of its own, \<open>1, 2, \<dots>\<close> in the order in which the
  components are first met in row-major order; the second result is their number.
\<close>

definition neighbours :: "nat list \<Rightarrow> nat list \<Rightarrow> nat list list" where
  "neighbours sh idx =
     concat (map (\<lambda>d. (if 0 < idx ! d then [idx[d := idx ! d - 1]] else []) @
                       (if idx ! d + 1 < sh ! d then [idx[d := idx ! d + 1]] else []))
               [0..<length sh])"

text \<open>
  The component of a seed: the cells found so far are extended by their foreground
  neighbours until nothing new is found. The fuel is the number of cells of the array,
  which the number of rounds cannot exceed.
\<close>

fun flood :: "nat \<Rightarrow> (nat list \<Rightarrow> bool) \<Rightarrow> nat list \<Rightarrow> nat list list \<Rightarrow> nat list list" where
  "flood 0 fg sh S = S"
| "flood (Suc n) fg sh S =
     (let new = filter (\<lambda>j. fg j \<and> j \<notin> set S) (remdups (concat (map (neighbours sh) S)))
      in if new = [] then S else flood n fg sh (S @ new))"

fun label_loop ::
  "(nat list \<Rightarrow> bool) \<Rightarrow> nat list \<Rightarrow> nat list list \<Rightarrow> (nat list \<Rightarrow> nat) \<Rightarrow> nat \<Rightarrow>
   (nat list \<Rightarrow> nat) \<times> nat" where
  "label_loop fg sh [] lab n = (lab, n)"
| "label_loop fg sh (i # rest) lab n =
     (if fg i \<and> lab i = 0
      then label_loop fg sh rest
             (\<lambda>j. if j \<in> set (flood (prod_list sh) fg sh [i]) then Suc n else lab j) (Suc n)
      else label_loop fg sh rest lab n)"

definition label :: "bool ndarray \<Rightarrow> nat ndarray \<times> nat" where
  "label a =
     (case label_loop (item a) (shape a) (indices (shape a)) (\<lambda>idx. 0) 0 of
        (lab, n) \<Rightarrow> (\<lparr>shape = shape a, item = lab\<rparr>, n))"

text \<open>
  \<^verbatim>\<open>skimage.segmentation.clear_border(labels)\<close> with its default buffer size 0: a
  dimension of extent zero is a ValueError; otherwise every label that occurs on a cell
  of the border (first or last position along some dimension) is set to the background
  value 0. (The function relabels its argument by connectivity of equal values first;
  on a label image made by \<open>label\<close>, whose classes are connected, that renames nothing
  apart.)
\<close>

definition on_border :: "nat list \<Rightarrow> nat list \<Rightarrow> bool" where
  "on_border sh idx = list_ex (\<lambda>(n, i). i = 0 \<or> Suc i = n) (zip sh idx)"

definition clear_border :: "nat ndarray \<Rightarrow> error + nat ndarray" where
  "clear_border labels =
     (if list_ex (\<lambda>s. s = 0) (shape labels) then Inl ValueError
      else Inr \<lparr>shape = shape labels,
                item = (\<lambda>idx. if item labels idx \<in>
                                   set (map (item labels)
                                          (filter (on_border (shape labels)) (indices (shape labels))))
                               then 0 else item labels idx)\<rparr>)"

section \<open>apply_chords\<close>

text \<open>
  The source, line by line: the spacing check; \<open>dims1\<close>, \<open>dims2\<close> and the two index
  assignments; the first \<open>moveaxis\<close>; \<open>atleast_3d\<close>; the sampling mask \<open>ch\<close>; the
  product; \<open>squeeze\<close>; the optional trimming; the second \<open>moveaxis\<close>.
\<close>

definition trim_chords :: "bool ndarray \<Rightarrow> error + bool ndarray" where
  "trim_chords chords =
     (case clear_border (fst (label (map_nd (\<lambda>b. b = True) chords))) of
        Inl e \<Rightarrow> Inl e
      | Inr cleared \<Rightarrow> Inr (mult_bool (map_nd (\<lambda>l. 0 < l) cleared) chords))"

definition apply_chords :: "bool ndarray \<Rightarrow> int \<Rightarrow> int \<Rightarrow> bool \<Rightarrow> error + bool ndarray" where
  "apply_chords im spacing axis trim_edges =
     (if spacing < 0 then Inl (Exception ''Spacing cannot be less than 0'')
      else
        let dims1 = map int [0..<ndim im] in
        case setitem dims1 axis 0 of
          Inl e \<Rightarrow> Inl e
        | Inr d \<Rightarrow>
           (case setitem d 0 axis of
              Inl e \<Rightarrow> Inl e
            | Inr dims2 \<Rightarrow>
               (case moveaxis im dims1 dims2 of
                  Inl e \<Rightarrow> Inl e
                | Inr im1 \<Rightarrow>
                   let im3 = atleast_3d im1 in
                   (case setitem_slices (zeros_like im3 False)
                           [Slice 0 1, Slice 0 (4 + 2 * spacing), Slice 0 (4 + 2 * spacing)] True of
                      Inl e \<Rightarrow> Inl e
                    | Inr ch \<Rightarrow>
                       let chords = squeeze (mult_bool im3 ch) in
                       (case (if trim_edges then trim_chords chords else Inr chords) of
                          Inl e \<Rightarrow> Inl e
                        | Inr chords' \<Rightarrow> moveaxis chords' dims1 dims2)))))"

text \<open>The fully void 10 by 10 grid of the scenarios.\<close>

definition grid10 :: "bool ndarray" where
  "grid10 = \<lparr>shape = [10, 10], item = (\<lambda>idx. True)\<rparr>"

section \<open>apply_chords_3D\<close>

text \<open>
  The three sampling patterns of the source, as the slices of its three assignments:
  \<^verbatim>\<open>ch[:, ::s, ::s] = 1\<close>, \<^verbatim>\<open>ch[::s, :, 2::s] = 2\<close> and
  \<^verbatim>\<open>ch[2::s, 2::s, :] = 3\<close>, with \<open>s = 4 + 2 * spacing\<close>.
\<close>

definition x_pattern :: "int \<Rightarrow> slice list" where
  "x_pattern s = [Slice 0 1, Slice 0 s, Slice 0 s]"

definition y_pattern :: "int \<Rightarrow> slice list" where
  "y_pattern s = [Slice 0 s, Slice 0 1, Slice 2 s]"

definition z_pattern :: "int \<Rightarrow> slice list" where
  "z_pattern s = [Slice 2 s, Slice 2 s, Slice 0 1]"

definition selected :: "slice list \<Rightarrow> nat list \<Rightarrow> bool" where
  "selected sls idx = list_all (\<lambda>(sl, i). in_slice sl i) (zip sls idx)"

text \<open>
  The label the three assignments leave at a cell: a later assignment overwrites an
  earlier one.
\<close>

definition chord_label :: "int \<Rightarrow> nat list \<Rightarrow> int" where
  "chord_label s idx =
     (if selected (z_pattern s) idx then 3
      else if selected (y_pattern s) idx then 2
      else if selected (x_pattern s) idx then 1 else 0)"

definition apply_chords_3D :: "bool ndarray \<Rightarrow> int \<Rightarrow> bool \<Rightarrow> error + int ndarray" where
  "apply_chords_3D im spacing trim_edges =
     (if ndim im < 3 then Inl (Exception ''Must be a 3D image to use this function'')
      else if spacing < 0 then Inl (Exception ''Spacing cannot be less than 0'')
      else
        case setitem_slices (zeros_like im 0) (x_pattern (4 + 2 * spacing)) 1 of
          Inl e \<Rightarrow> Inl e
        | Inr ch1 \<Rightarrow>
           (case setitem_slices ch1 (y_pattern (4 + 2 * spacing)) 2 of
              Inl e \<Rightarrow> Inl e
            | Inr ch2 \<Rightarrow>
               (case setitem_slices ch2 (z_pattern (4 + 2 * spacing)) 3 of
                  Inl e \<Rightarrow> Inl e
                | Inr ch \<Rightarrow>
                   let chords = mult_int_bool ch im in
                   if trim_edges
                   then (case clear_border (fst (label (map_nd (\<lambda>v. 0 < v) chords))) of
                           Inl e \<Rightarrow> Inl e
                         | Inr cleared \<Rightarrow>
                            Inr (mult_int_bool chords (map_nd (\<lambda>l. 0 < l) cleared)))
                   else Inr chords)))"

subsection \<open>Names for the parts of apply_chords\<close>

text \<open>
  Three names for parts of \<open>apply_chords\<close>, used to state what it computes: the order
  by which both of its \<open>moveaxis\<close> calls transpose when they succeed (the chosen axis and
  axis 0 exchanged), the sampling mask \<open>ch\<close>, and the array \<open>chords\<close> after
  \<open>squeeze\<close>.
\<close>

definition axis_order :: "nat \<Rightarrow> int \<Rightarrow> nat list" where
  "axis_order k axis =
     (let a = nat (if axis < 0 then axis + int k else axis) in ([0..<k][a := 0])[0 := a])"

definition sampling_mask :: "'a ndarray \<Rightarrow> int \<Rightarrow> bool ndarray" where
  "sampling_mask a s =
     \<lparr>shape = shape a, item = (\<lambda>idx. selected (x_pattern s) idx)\<rparr>"

definition raw_chords :: "bool ndarray \<Rightarrow> int \<Rightarrow> int \<Rightarrow> bool ndarray" where
  "raw_chords im spacing axis =
     (let im3 = atleast_3d (transpose_nd im (axis_order (ndim im) axis))
      in squeeze (mult_bool im3 (sampling_mask im3 (4 + 2 * spacing))))"

section \<open>chord_length_distribution\<close>

text \<open>
  \<^verbatim>\<open>scipy.ndimage.find_objects(labels)\<close>: for every label from 1 to the largest
  one, the bounding box of its cells as one \<open>(start, stop)\<close> pair per dimension, or
  \<open>None\<close> when no cell carries the label.
\<close>

fun list_min :: "nat list \<Rightarrow> nat" where
  "list_min [] = 0"
| "list_min (x # xs) = fold min xs x"

definition list_max :: "nat list \<Rightarrow> nat" where
  "list_max xs = fold max xs 0"

definition bounding_box :: "nat \<Rightarrow> nat list list \<Rightarrow> (nat \<times> nat) list" where
  "bounding_box k cells =
     map (\<lambda>d. (list_min (map (\<lambda>c. c ! d) cells), Suc (list_max (map (\<lambda>c. c ! d) cells))))
       [0..<k]"

definition find_objects :: "nat ndarray \<Rightarrow> (nat \<times> nat) list option list" where
  "find_objects labels =
     map (\<lambda>l. case filter (\<lambda>idx. item labels idx = l) (indices (shape labels)) of
                 [] \<Rightarrow> None
               | c # cs \<Rightarrow> Some (bounding_box (ndim labels) (c # cs)))
       [1..<Suc (list_max (flat labels))]"

text \<open>\<^verbatim>\<open>amax\<close> of a list: the largest element; of no elements, a ValueError.\<close>

definition amax :: "nat list \<Rightarrow> error + nat" where
  "amax xs = (if xs = [] then Inl ValueError else Inr (list_max xs))"

text \<open>
  The loop \<^verbatim>\<open>for i in range(len(slices))\<close>: entry \<open>i\<close> of \<open>chord_lens\<close> becomes
  the longest side of the \<open>i\<close>-th bounding box. Iterating over a \<open>None\<close> entry would be
  a TypeError, writing past the end of \<open>chord_lens\<close> an IndexError.
\<close>

fun chord_loop :: "(nat \<times> nat) list option list \<Rightarrow> nat \<Rightarrow> nat list \<Rightarrow> error + nat list" where
  "chord_loop [] i chord_lens = Inr chord_lens"
| "chord_loop (s # rest) i chord_lens =
     (case s of
        None \<Rightarrow> Inl TypeError
      | Some box \<Rightarrow>
         (case amax (map (\<lambda>(start, stop). stop - start) box) of
            Inl e \<Rightarrow> Inl e
          | Inr m \<Rightarrow>
             if i < length chord_lens then chord_loop rest (Suc i) (chord_lens[i := m])
             else Inl IndexError))"

definition chord_length_distribution :: "bool ndarray \<Rightarrow> error + nat list" where
  "chord_length_distribution im =
     (case label im of
        (labels, N) \<Rightarrow> chord_loop (find_objects labels) 0 (replicate N 0))"

section \<open>two_point_correlation_bf\<close>

text \<open>
  \<^verbatim>\<open>range(start, stop, step)\<close>: a zero step is a ValueError; a step of the wrong
  sign gives the empty range.
\<close>

definition py_range :: "int \<Rightarrow> int \<Rightarrow> int \<Rightarrow> error + int list" where
  "py_range start stop step =
     (if step = 0 then Inl ValueError
      else if 0 < step
      then Inr (map (\<lambda>k. start + int k * step) [0..<nat ((stop - start + step - 1) div step)])
      else Inr (map (\<lambda>k. start + int k * step) [0..<nat ((start - stop - step - 1) div (- step))]))"

text \<open>
  The sample points \<open>crds\<close>. \<^verbatim>\<open>meshgrid\<close> (with its default "xy" indexing) varies
  the second range slowest, then the first, then the third; flattening and stacking
  gives the points in that order. Without the branch for 2 or 3 dimensions \<open>crds\<close> is
  unbound at its first use.
\<close>

definition sample_points :: "nat list \<Rightarrow> int \<Rightarrow> error + int list list" where
  "sample_points sh spacing =
     (case sh of
        [d0, d1] \<Rightarrow>
          (case py_range 0 (int d0) spacing of
             Inl e \<Rightarrow> Inl e
           | Inr xs \<Rightarrow>
              (case py_range 0 (int d1) spacing of
                 Inl e \<Rightarrow> Inl e
               | Inr ys \<Rightarrow> Inr (concat (map (\<lambda>y. map (\<lambda>x. [x, y]) xs) ys))))
      | [d0, d1, d2] \<Rightarrow>
          (case py_range 0 (int d0) spacing of
             Inl e \<Rightarrow> Inl e
           | Inr xs \<Rightarrow>
              (case py_range 0 (int d1) spacing of
                 Inl e \<Rightarrow> Inl e
               | Inr ys \<Rightarrow>
                  (case py_range 0 (int d2) spacing of
                     Inl e \<Rightarrow> Inl e
                   | Inr zs \<Rightarrow>
                      Inr (concat (map (\<lambda>y. concat (map (\<lambda>x. map (\<lambda>z. [x, y, z]) zs) xs)) ys)))))
      | _ \<Rightarrow> Inl UnboundLocalError)"

text \<open>
  \<^verbatim>\<open>cdist\<close> gives the Euclidean distances between the points. The points have
  integer coordinates and the bin edges are integers, so a distance is kept as its
  square, and compared with an edge \<open>e\<close> through the square of \<open>e\<close>
  (\<open>edge_le_dist\<close> is \<open>e \<le> sqrt d\<close>, \<open>dist_less_edge\<close> is \<open>sqrt d < e\<close>,
  \<open>dist_le_edge\<close> is \<open>sqrt d \<le> e\<close>).
\<close>

definition sqdist :: "int list \<Rightarrow> int list \<Rightarrow> int" where
  "sqdist p q = sum_list (map (\<lambda>(a, b). (a - b) * (a - b)) (zip p q))"

definition cdist :: "int list list \<Rightarrow> int list list \<Rightarrow> int list list" where
  "cdist XA XB = map (\<lambda>p. map (sqdist p) XB) XA"

definition edge_le_dist :: "int \<Rightarrow> int \<Rightarrow> bool" where
  "edge_le_dist e d = (e \<le> 0 \<or> e * e \<le> d)"

definition dist_less_edge :: "int \<Rightarrow> int \<Rightarrow> bool" where
  "dist_less_edge d e = (0 < e \<and> d < e * e)"

definition dist_le_edge :: "int \<Rightarrow> int \<Rightarrow> bool" where
  "dist_le_edge d e = (0 \<le> e \<and> d \<le> e * e)"

text \<open>
  \<^verbatim>\<open>numpy.histogram(a, bins=edges)\<close>: bin \<open>i\<close> counts the values in
  \<open>[edges ! i, edges ! (i + 1))\<close>, the last bin also its right edge; fewer than two
  edges give no bin.
\<close>

definition in_bin :: "int list \<Rightarrow> nat \<Rightarrow> int \<Rightarrow> bool" where
  "in_bin edges i d =
     (edge_le_dist (edges ! i) d \<and>
      (if Suc (Suc i) = length edges then dist_le_edge d (edges ! Suc i)
       else dist_less_edge d (edges ! Suc i)))"

definition histogram :: "int list \<Rightarrow> int list \<Rightarrow> nat list" where
  "histogram a edges = map (\<lambda>i. length (filter (in_bin edges i) a)) [0..<length edges - 1]"

text \<open>
  The image. The grids of the specification hold booleans or integers, and the source
  does not check the type of the cells; the values read at the sample points, \<open>hits\<close>,
  are then booleans or integers, and index the distance matrix as a mask or as positions.
\<close>

datatype image = BoolImage "bool ndarray" | IntImage "int ndarray"

definition image_shape :: "image \<Rightarrow> nat list" where
  "image_shape im = (case im of BoolImage a \<Rightarrow> shape a | IntImage a \<Rightarrow> shape a)"


datatype hits = BoolHits "bool list" | IntHits "int list"

definition read_points :: "image \<Rightarrow> int list list \<Rightarrow> hits" where
  "read_points im crds =
     (case im of
        BoolImage a \<Rightarrow> BoolHits (map (\<lambda>p. item a (map nat p)) crds)
      | IntImage a \<Rightarrow> IntHits (map (\<lambda>p. item a (map nat p)) crds))"

text \<open>
  \<^verbatim>\<open>hits = im[pts].flatten()\<close> reads the image at every sample point (the list of
  coordinate arrays indexes as a tuple, as the array library of the source's time did).
  The array library is not part of the repository, and one of its answers is left open,
  as the parameter \<open>empty_ok\<close>: whether it accepts as an index the coordinate arrays of a
  sample without points, which \<^verbatim>\<open>meshgrid\<close> builds from an empty range. (numpy gives an
  array built from no element its default float type and refuses an array of a float
  type as an index, also an empty one: \<open>empty_ok\<close> is False, the statement raises
  IndexError. A library that types the empty arrays as integers reads no cell and goes
  on: \<open>empty_ok\<close> is True.)
\<close>

definition getitem_points :: "bool \<Rightarrow> image \<Rightarrow> int list list \<Rightarrow> error + hits" where
  "getitem_points empty_ok im crds =
     (if crds = [] then (if empty_ok then Inr (read_points im crds) else Inl IndexError)
      else Inr (read_points im crds))"

text \<open>
  The positions that \<open>hits\<close> selects along an axis of length \<open>n\<close>, in
  \<^verbatim>\<open>dmat[hits, :]\<close> (rows) and \<^verbatim>\<open>dmat[:, hits]\<close> (columns). A boolean array is a mask:
  it has to have the length of the axis, and selects the positions where it is true. An
  integer array is a list of positions: each one has to lie in \<open>[-n, n)\<close>, a negative
  one counting from the end; any other is an IndexError.
\<close>

definition positions :: "hits \<Rightarrow> nat \<Rightarrow> error + nat list" where
  "positions h n =
     (case h of
        BoolHits keep \<Rightarrow>
          if length keep = n then Inr (filter (\<lambda>i. keep ! i) [0..<n]) else Inl IndexError
      | IntHits idx \<Rightarrow>
          if list_all (\<lambda>i. - int n \<le> i \<and> i < int n) idx
          then Inr (map (\<lambda>i. nat (if i < 0 then i + int n else i)) idx)
          else Inl IndexError)"

text \<open>
  The true division of two integer arrays: a zero divisor gives \<open>nan\<close> (for \<open>0/0\<close>)
  or \<open>inf\<close>, not an exception. A quotient is kept as the exact rational.
\<close>

datatype quotient = Val rat | NaN | PosInf

definition np_divide :: "nat \<Rightarrow> nat \<Rightarrow> quotient" where
  "np_divide b a =
     (if a = 0 then (if b = 0 then NaN else PosInf) else Val (of_nat b / of_nat a))"

text \<open>
  The source up to its two histograms: the bin edges, the counts \<open>h1[0]\<close> over the rows
  that \<open>hits\<close> selects, and the counts \<open>h2[0]\<close> over the rows and columns that it
  selects. The distance matrix is square, one row and one column for each sample point,
  so \<open>hits\<close> selects the same positions both times.
\<close>

definition two_point_histograms ::
  "bool \<Rightarrow> image \<Rightarrow> int \<Rightarrow> error + int list \<times> nat list \<times> nat list" where
  "two_point_histograms empty_ok im spacing =
     (case sample_points (image_shape im) spacing of
        Inl e \<Rightarrow> Inl e
      | Inr crds \<Rightarrow>
         let dmat = cdist crds crds
         in (case getitem_points empty_ok im crds of
               Inl e \<Rightarrow> Inl e
             | Inr hits \<Rightarrow>
                (case positions hits (length crds) of
                   Inl e \<Rightarrow> Inl e
                 | Inr ps \<Rightarrow>
                    let dmat1 = map (\<lambda>i. dmat ! i) ps
                    in (case py_range 0 (int (list_min (image_shape im) div 2)) spacing of
                          Inl e \<Rightarrow> Inl e
                        | Inr edges \<Rightarrow>
                           let h1 = histogram (concat dmat1) edges;
                               dmat2 = map (\<lambda>row. map (\<lambda>j. row ! j) ps) dmat1;
                               h2 = histogram (concat dmat2) edges
                           in Inr (edges, h1, h2)))))"

definition two_point_correlation_bf ::
  "bool \<Rightarrow> image \<Rightarrow> int \<Rightarrow> error + int list \<times> quotient list" where
  "two_point_correlation_bf empty_ok im spacing =
     (case two_point_histograms empty_ok im spacing of
        Inl e \<Rightarrow> Inl e
      | Inr (edges, h1, h2) \<Rightarrow> Inr (butlast edges, map (\<lambda>(b, a). np_divide b a) (zip h2 h1)))"

section \<open>Connected components, in the words of the specification\<close>

text \<open>
  What the specification calls a connected component, stated without reference to the
  labelling algorithm: two cells are adjacent when they differ by one in exactly one
  coordinate; the foreground cells of an image are linked when adjacent; a component is
  the set of cells reachable from a foreground cell along links; the longest side of a set
  of cells is the largest extent of its minimal bounding box over the dimensions.
\<close>

definition adjacent :: "nat list \<Rightarrow> nat list \<Rightarrow> bool" where
  "adjacent i j =
     (length i = length j \<and>
      (\<exists>d < length i. (i ! d = Suc (j ! d) \<or> j ! d = Suc (i ! d)) \<and>
                      (\<forall>e < length i. e \<noteq> d \<longrightarrow> i ! e = j ! e)))"

definition fg_cells :: "bool ndarray \<Rightarrow> nat list set" where
  "fg_cells a = {idx. in_bounds (shape a) idx \<and> item a idx}"

definition link :: "bool ndarray \<Rightarrow> (nat list \<times> nat list) set" where
  "link a = {(i, j). i \<in> fg_cells a \<and> j \<in> fg_cells a \<and> adjacent i j}"

definition component_of :: "bool ndarray \<Rightarrow> nat list \<Rightarrow> nat list set" where
  "component_of a i = (link a)\<^sup>* `` {i}"

definition components :: "bool ndarray \<Rightarrow> nat list set set" where
  "components a = component_of a ` fg_cells a"

definition longest_side :: "nat \<Rightarrow> nat list set \<Rightarrow> nat" where
  "longest_side k S =
     Max ((\<lambda>d. Max ((\<lambda>c. c ! d) ` S) - Min ((\<lambda>c. c ! d) ` S) + 1) ` {..<k})"

text \<open>
  The invariant of the labelling loop once the cells of \<open>P\<close> have been visited: labels
  are at most \<open>n\<close>, only foreground cells are labelled, a label class is a whole
  component, every label from 1 to \<open>n\<close> is in use, and every visited foreground cell is
  labelled.
\<close>

definition label_inv :: "bool ndarray \<Rightarrow> nat list set \<Rightarrow> (nat list \<Rightarrow> nat) \<Rightarrow> nat \<Rightarrow> bool" where
  "label_inv a P lab n \<longleftrightarrow>
     (\<forall>j. lab j \<le> n) \<and>
     (\<forall>j. lab j \<noteq> 0 \<longrightarrow> j \<in> fg_cells a) \<and>
     (\<forall>i j. lab i \<noteq> 0 \<longrightarrow> (lab j = lab i \<longleftrightarrow> (i, j) \<in> (link a)\<^sup>*)) \<and>
     (\<forall>l. 0 < l \<and> l \<le> n \<longrightarrow> (\<exists>j. lab j = l)) \<and>
     (\<forall>p \<in> P. p \<in> fg_cells a \<longrightarrow> lab p \<noteq> 0)"

section \<open>Basic facts about indices\<close>

lemma indices_length: "idx \<in> set (indices sh) \<Longrightarrow> length idx = length sh"
  by (induction sh arbitrary: idx) auto

section \<open>The two scenarios on the fully void 10 by 10 grid\<close>

text \<open>
  Claim C1. On the fully void 10 by 10 grid, \<open>apply_chords\<close> with spacing 0, axis 0
  and no trimming returns a 10 by 10 mask whose true cells are exactly the cells
  \<open>[r, c]\<close> with \<open>r\<close> any of the ten rows and \<open>c\<close> one of the columns 0, 4, 8:
  thirty cells and no others.
\<close>

theorem apply_chords_grid10_untrimmed:
  "map_sum id (\<lambda>a. (shape a, marked a, length (marked a))) (apply_chords grid10 0 0 False) =
     Inr ([10, 10], concat (map (\<lambda>r. map (\<lambda>c. [r, c]) [0, 4, 8]) [0..<10]), 30)"
  by code_simp

text \<open>
  Claim C2. On the same grid with trimming, the returned 10 by 10 mask has no true cell.
  The reason is the one the claim gives: the untrimmed mask has three components (the
  three columns), and each of them has a cell in the top row and one in the bottom row.
\<close>

theorem apply_chords_grid10_trimmed:
  "map_sum id (\<lambda>a. (shape a, marked a, flat a)) (apply_chords grid10 0 0 True) =
     Inr ([10, 10], [], replicate 100 False)
   \<and> map_sum id (\<lambda>u. (snd (label u),
                         map (item (fst (label u))) [[0, 0], [0, 4], [0, 8]],
                         map (item (fst (label u))) [[9, 0], [9, 4], [9, 8]]))
        (apply_chords grid10 0 0 False) = Inr (3, [1, 2, 3], [1, 2, 3])"
  by code_simp


section \<open>apply_chords_3D: the sampling patterns\<close>

lemma pattern_lengths [simp]:
  "length (x_pattern s) = 3" "length (y_pattern s) = 3" "length (z_pattern s) = 3"
  by (simp_all add: x_pattern_def y_pattern_def z_pattern_def)

lemma chords_3D_unfold:
  assumes "3 \<le> ndim im" "0 \<le> spacing"
  defines "chords \<equiv> \<lparr>shape = shape im,
                item = (\<lambda>idx. if item im idx then chord_label (4 + 2 * spacing) idx else 0)\<rparr>"
  shows "apply_chords_3D im spacing trim_edges =
           (if trim_edges
            then (case clear_border (fst (label (map_nd (\<lambda>v. 0 < v) chords))) of
                    Inl e \<Rightarrow> Inl e
                  | Inr cleared \<Rightarrow> Inr (mult_int_bool chords (map_nd (\<lambda>l. 0 < l) cleared)))
            else Inr chords)"
proof -
  define s where "s = 4 + 2 * spacing"
  define a1 where "a1 = \<lparr>shape = shape im,
      item = (\<lambda>idx. if selected (x_pattern s) idx then (1::int) else 0)\<rparr>"
  define a2 where "a2 = \<lparr>shape = shape im,
      item = (\<lambda>idx. if selected (y_pattern s) idx then 2 else item a1 idx)\<rparr>"
  define a3 where "a3 = \<lparr>shape = shape im,
      item = (\<lambda>idx. if selected (z_pattern s) idx then 3 else item a2 idx)\<rparr>"
  have e1: "setitem_slices (zeros_like im (0::int)) (x_pattern s) 1 = Inr a1"
    using assms(1) by (auto simp add: setitem_slices_def zeros_like_def ndim_def a1_def selected_def)
  have e2: "setitem_slices a1 (y_pattern s) 2 = Inr a2"
    using assms(1) by (auto simp add: setitem_slices_def ndim_def a1_def a2_def selected_def)
  have e3: "setitem_slices a2 (z_pattern s) 3 = Inr a3"
    using assms(1) by (auto simp add: setitem_slices_def ndim_def a2_def a3_def selected_def)
  have m: "mult_int_bool a3 im = chords"
    by (auto simp add: mult_int_bool_def chords_def a1_def a2_def a3_def chord_label_def s_def fun_eq_iff)
  show ?thesis
    using assms(1,2) by (simp add: apply_chords_3D_def s_def[symmetric] e1 e2 e3 m Let_def)
qed

lemma label_shape [simp]: "shape (fst (label a)) = shape a"
  by (simp add: label_def split: prod.splits)

lemma clear_border_Inr:
  "\<not> list_ex (\<lambda>s. s = 0) (shape l) \<Longrightarrow>
   \<exists>c. clear_border l = Inr c \<and> shape c = shape l \<and>
       (\<forall>idx. item c idx = 0 \<or> item c idx = item l idx)"
  by (simp add: clear_border_def)

lemma in_bounds_no_zero: "in_bounds sh idx \<Longrightarrow> \<not> list_ex (\<lambda>s. s = 0) sh"
  unfolding in_bounds_def list_ex_iff
  by (auto simp: list_all2_conv_all_nth in_set_conv_nth)

lemma apply_chords_3D_result:
  assumes "3 \<le> ndim im" "0 \<le> spacing" "trim_edges \<Longrightarrow> \<not> list_ex (\<lambda>s. s = 0) (shape im)"
  shows "\<exists>res. apply_chords_3D im spacing trim_edges = Inr res \<and> shape res = shape im \<and>
          (\<forall>idx. item res idx = 0 \<or>
             item res idx = (if item im idx then chord_label (4 + 2 * spacing) idx else 0)) \<and>
          (\<not> trim_edges \<longrightarrow> (\<forall>idx.
             item res idx = (if item im idx then chord_label (4 + 2 * spacing) idx else 0)))"
proof (cases trim_edges)
  case False
  then show ?thesis using chords_3D_unfold[OF assms(1,2)] by simp
next
  case True
  let ?ch = "\<lparr>shape = shape im,
                item = (\<lambda>idx. if item im idx then chord_label (4 + 2 * spacing) idx else 0)\<rparr>"
  let ?l = "fst (label (map_nd (\<lambda>v. 0 < v) ?ch))"
  have "\<not> list_ex (\<lambda>s. s = 0) (shape ?l)" using assms(3) True by (simp add: map_nd_def)
  from clear_border_Inr[OF this] obtain c where c: "clear_border ?l = Inr c"
    by blast
  show ?thesis
    using True chords_3D_unfold[OF assms(1,2), of True] c
    by (auto simp: mult_int_bool_def map_nd_def)
qed

lemma stride_disjoint:
  fixes s :: int
  assumes "4 \<le> s"
  shows "\<not> (int k mod s = 0 \<and> 2 \<le> int k \<and> (int k - 2) mod s = 0)"
proof
  assume h: "int k mod s = 0 \<and> 2 \<le> int k \<and> (int k - 2) mod s = 0"
  then have "s dvd int k" "s dvd (int k - 2)" by auto
  then have "s dvd (int k - (int k - 2))" using dvd_diff by blast
  then have "s dvd 2" by simp
  then have "s \<le> 2" by (rule zdvd_imp_le) simp
  with assms show False by simp
qed

lemma patterns_disjoint:
  assumes "0 \<le> spacing" "length idx = 3"
  shows "\<not> (selected (x_pattern (4 + 2 * spacing)) idx \<and> selected (y_pattern (4 + 2 * spacing)) idx)"
    "\<not> (selected (x_pattern (4 + 2 * spacing)) idx \<and> selected (z_pattern (4 + 2 * spacing)) idx)"
    "\<not> (selected (y_pattern (4 + 2 * spacing)) idx \<and> selected (z_pattern (4 + 2 * spacing)) idx)"
proof -
  obtain i j k where idx: "idx = [i, j, k]"
    using assms(2) by (auto simp: length_Suc_conv numeral_3_eq_3)
  have s: "4 \<le> 4 + 2 * spacing" using assms(1) by simp
  show "\<not> (selected (x_pattern (4 + 2 * spacing)) idx \<and> selected (y_pattern (4 + 2 * spacing)) idx)"
    using stride_disjoint[OF s, of k]
    by (auto simp: idx selected_def x_pattern_def y_pattern_def)
  show "\<not> (selected (x_pattern (4 + 2 * spacing)) idx \<and> selected (z_pattern (4 + 2 * spacing)) idx)"
    using stride_disjoint[OF s, of j]
    by (auto simp: idx selected_def x_pattern_def z_pattern_def)
  show "\<not> (selected (y_pattern (4 + 2 * spacing)) idx \<and> selected (z_pattern (4 + 2 * spacing)) idx)"
    using stride_disjoint[OF s, of i]
    by (auto simp: idx selected_def y_pattern_def z_pattern_def)
qed


text \<open>
  Claim C3. For a 3D grid and a spacing of at least 0, no cell is selected by two of the
  three sampling patterns; the call returns an array of the shape of the grid, and the
  value of a cell is 0, 1, 2 or 3, where 1 is only found at a void cell of the X pattern,
  2 at one of the Y pattern and 3 at one of the Z pattern.
\<close>

theorem chords_3D_one_label:
  assumes "ndim im = 3" "0 \<le> spacing" "in_bounds (shape im) idx"
  shows "\<not> (selected (x_pattern (4 + 2 * spacing)) idx \<and> selected (y_pattern (4 + 2 * spacing)) idx)
       \<and> \<not> (selected (x_pattern (4 + 2 * spacing)) idx \<and> selected (z_pattern (4 + 2 * spacing)) idx)
       \<and> \<not> (selected (y_pattern (4 + 2 * spacing)) idx \<and> selected (z_pattern (4 + 2 * spacing)) idx)
       \<and> (\<exists>res. apply_chords_3D im spacing trim_edges = Inr res \<and> shape res = shape im
            \<and> item res idx \<in> {0, 1, 2, 3}
            \<and> (item res idx = 1 \<longrightarrow> item im idx \<and> selected (x_pattern (4 + 2 * spacing)) idx)
            \<and> (item res idx = 2 \<longrightarrow> item im idx \<and> selected (y_pattern (4 + 2 * spacing)) idx)
            \<and> (item res idx = 3 \<longrightarrow> item im idx \<and> selected (z_pattern (4 + 2 * spacing)) idx))"
proof -
  have len: "length idx = 3"
    using assms(1,3) by (auto simp: ndim_def in_bounds_def dest: list_all2_lengthD)
  note d = patterns_disjoint[OF assms(2) len]
  have nz: "\<not> list_ex (\<lambda>s. s = 0) (shape im)" using assms(3) by (rule in_bounds_no_zero)
  have "3 \<le> ndim im" using assms(1) by simp
  from apply_chords_3D_result[OF this assms(2), of trim_edges] nz
  obtain res where r: "apply_chords_3D im spacing trim_edges = Inr res" "shape res = shape im"
    "item res idx = 0 \<or>
       item res idx = (if item im idx then chord_label (4 + 2 * spacing) idx else 0)"
    by blast
  define v where "v = (if item im idx then chord_label (4 + 2 * spacing) idx else 0)"
  have v: "v = 0 \<or> (v = 1 \<and> item im idx \<and> selected (x_pattern (4 + 2 * spacing)) idx)
      \<or> (v = 2 \<and> item im idx \<and> selected (y_pattern (4 + 2 * spacing)) idx)
      \<or> (v = 3 \<and> item im idx \<and> selected (z_pattern (4 + 2 * spacing)) idx)"
    unfolding v_def chord_label_def by simp
  have rv: "item res idx = 0 \<or> item res idx = v" using r(3) by (simp add: v_def)
  have "item res idx \<in> {0, 1, 2, 3}"
    using rv v by auto
  moreover have "item res idx = 1 \<longrightarrow> item im idx \<and> selected (x_pattern (4 + 2 * spacing)) idx"
    using rv v by auto
  moreover have "item res idx = 2 \<longrightarrow> item im idx \<and> selected (y_pattern (4 + 2 * spacing)) idx"
    using rv v by auto
  moreover have "item res idx = 3 \<longrightarrow> item im idx \<and> selected (z_pattern (4 + 2 * spacing)) idx"
    using rv v by auto
  ultimately show ?thesis using d r(1,2) by blast
qed

theorem chords_3D_one_label_witness:
  "ndim \<lparr>shape = [3, 5, 5], item = (\<lambda>idx. True)\<rparr> = 3 \<and> (0::int) \<le> 0
   \<and> in_bounds [3, 5, 5] [2, 2, 1]
   \<and> selected (z_pattern 4) [2, 2, 1]
   \<and> \<not> selected (x_pattern 4) [2, 2, 1] \<and> \<not> selected (y_pattern 4) [2, 2, 1]
   \<and> (\<exists>res. apply_chords_3D \<lparr>shape = [3, 5, 5], item = (\<lambda>idx. True)\<rparr> 0 False = Inr res
          \<and> shape res = [3, 5, 5] \<and> item res [2, 2, 1] \<in> {0, 1, 2, 3})"
proof -
  have h: "ndim \<lparr>shape = [3, 5, 5], item = (\<lambda>idx. True)\<rparr> = 3" "(0::int) \<le> 0"
    "in_bounds (shape \<lparr>shape = [3, 5, 5], item = (\<lambda>idx. True)\<rparr>) [2, 2, 1]"
    by (simp_all add: ndim_def in_bounds_def)
  have s: "selected (z_pattern 4) [2, 2, 1]" "\<not> selected (x_pattern 4) [2, 2, 1]"
    "\<not> selected (y_pattern 4) [2, 2, 1]"
    by (simp_all add: selected_def x_pattern_def y_pattern_def z_pattern_def)
  from chords_3D_one_label[OF h, of False]
  obtain res where "apply_chords_3D \<lparr>shape = [3, 5, 5], item = (\<lambda>idx. True)\<rparr> 0 False = Inr res"
    "shape res = [3, 5, 5]" "item res [2, 2, 1] \<in> {0, 1, 2, 3}"
    by auto
  then show ?thesis
    using h s by (auto simp add: in_bounds_def)
qed


section \<open>apply_chords: what the call returns\<close>

lemma upt_2: "[0..<2] = [0, Suc 0]"
  by (simp add: upt_rec numeral_2_eq_2)

lemma upt_3: "[0..<3] = [0, Suc 0, 2]"
  by (simp add: upt_rec numeral_3_eq_3 numeral_2_eq_2)

lemma axis_cases_2:
  assumes "- 2 \<le> (axis::int)" "axis < 2"
  shows "axis = -2 \<or> axis = -1 \<or> axis = 0 \<or> axis = 1"
  using assms by arith

lemma axis_cases_3:
  assumes "- 3 \<le> (axis::int)" "axis < 3"
  shows "axis = -3 \<or> axis = -2 \<or> axis = -1 \<or> axis = 0 \<or> axis = 1 \<or> axis = 2"
  using assms by arith

lemmas moveaxis_simps = moveaxis_def normalize_axis_tuple_def normalize_axis_index_def
  list_insert_def setitem_def axis_order_def upt_2 upt_3

lemma moveaxis_chords_2:
  assumes "axis = -2 \<or> axis = -1 \<or> axis = 0 \<or> axis = 1"
  shows "\<exists>d dims2. setitem (map int [0..<2]) axis 0 = Inr d \<and> setitem d 0 axis = Inr dims2 \<and>
     (\<forall>a::bool ndarray. moveaxis a (map int [0..<2]) dims2 =
         (if ndim a = 2 then Inr (transpose_nd a (axis_order 2 axis))
          else if ndim a < 2 then Inl AxisError else moveaxis a (map int [0..<2]) dims2))"
  using assms by (elim disjE) (simp_all add: moveaxis_simps)

lemma moveaxis_chords_3:
  assumes "axis = -3 \<or> axis = -2 \<or> axis = -1 \<or> axis = 0 \<or> axis = 1 \<or> axis = 2"
  shows "\<exists>d dims2. setitem (map int [0..<3]) axis 0 = Inr d \<and> setitem d 0 axis = Inr dims2 \<and>
     (\<forall>a::bool ndarray. moveaxis a (map int [0..<3]) dims2 =
         (if ndim a = 3 then Inr (transpose_nd a (axis_order 3 axis))
          else if ndim a < 3 then Inl AxisError else moveaxis a (map int [0..<3]) dims2))"
  using assms by (elim disjE) (simp_all add: moveaxis_simps)


lemma atleast_3d_ndim: "3 \<le> ndim (atleast_3d a)"
  by (simp add: atleast_3d_def ndim_def split: list.splits)

lemma sampling_mask_eq:
  "setitem_slices (zeros_like im3 False) [Slice 0 1, Slice 0 s, Slice 0 s] True =
     (if ndim im3 < 3 then Inl IndexError else Inr (sampling_mask im3 s))"
  by (auto simp add: setitem_slices_def zeros_like_def sampling_mask_def selected_def
      x_pattern_def ndim_def fun_eq_iff)

lemma map_nd_simps [simp]:
  "shape (map_nd f a) = shape a" "item (map_nd f a) idx = f (item a idx)"
  by (simp_all add: map_nd_def)

lemma mult_bool_simps [simp]:
  "shape (mult_bool a b) = shape a" "item (mult_bool a b) idx = (item a idx \<and> item b idx)"
  by (simp_all add: mult_bool_def)

lemma clear_border_shape: "clear_border l = Inr c \<Longrightarrow> shape c = shape l"
  by (auto simp add: clear_border_def split: if_splits)

lemma trim_chords_shape: "trim_chords c = Inr t \<Longrightarrow> shape t = shape c"
  by (auto simp add: trim_chords_def split: sum.splits dest: clear_border_shape)

lemma trim_chords_subset: "trim_chords c = Inr t \<Longrightarrow> item t idx \<Longrightarrow> item c idx"
  by (auto simp add: trim_chords_def split: sum.splits)

lemma trim_chords_returns:
  "\<not> list_ex (\<lambda>s. s = 0) (shape c) \<Longrightarrow> \<exists>t. trim_chords c = Inr t"
  by (simp add: trim_chords_def clear_border_def)

lemma trim_chords_fails:
  "list_ex (\<lambda>s. s = 0) (shape c) \<Longrightarrow> trim_chords c = Inl ValueError"
  by (simp add: trim_chords_def clear_border_def)

lemma raw_chords_ndim:
  assumes "ndim im = 2 \<or> ndim im = 3"
  shows "ndim (raw_chords im spacing axis) \<le> ndim im"
proof -
  let ?t = "transpose_nd im (axis_order (ndim im) axis)"
  have len: "length (shape ?t) = ndim im"
    by (simp add: transpose_nd_def axis_order_def Let_def)
  from assms show ?thesis
  proof
    assume k: "ndim im = 2"
    then obtain m n where "shape ?t = [m, n]"
      using len by (auto simp: length_Suc_conv numeral_2_eq_2)
    then show ?thesis
      using k by (simp add: raw_chords_def Let_def squeeze_def mult_bool_def atleast_3d_def ndim_def)
  next
    assume k: "ndim im = 3"
    then obtain m n l where "shape ?t = [m, n, l]"
      using len by (auto simp: length_Suc_conv numeral_3_eq_3)
    then show ?thesis
      using k by (simp add: raw_chords_def Let_def squeeze_def mult_bool_def atleast_3d_def ndim_def)
  qed
qed

lemma apply_chords_unfold:
  assumes k: "ndim im = 2 \<or> ndim im = 3" and sp: "0 \<le> spacing"
    and ax: "- int (ndim im) \<le> axis" "axis < int (ndim im)"
  shows "apply_chords im spacing axis trim_edges =
     (case (if trim_edges then trim_chords (raw_chords im spacing axis)
            else Inr (raw_chords im spacing axis)) of
        Inl e \<Rightarrow> Inl e
      | Inr c \<Rightarrow> if ndim c = ndim im then Inr (transpose_nd c (axis_order (ndim im) axis))
                 else Inl AxisError)"
proof -
  define K where "K = ndim im"
  have "\<exists>d dims2. setitem (map int [0..<K]) axis 0 = Inr d \<and> setitem d 0 axis = Inr dims2 \<and>
     (\<forall>a::bool ndarray. moveaxis a (map int [0..<K]) dims2 =
         (if ndim a = K then Inr (transpose_nd a (axis_order K axis))
          else if ndim a < K then Inl AxisError else moveaxis a (map int [0..<K]) dims2))"
  proof -
    from k show ?thesis
    proof
      assume k2: "ndim im = 2"
      with ax have "axis = -2 \<or> axis = -1 \<or> axis = 0 \<or> axis = 1" by (intro axis_cases_2) simp_all
      from moveaxis_chords_2[OF this] show ?thesis by (simp only: K_def k2)
    next
      assume k3: "ndim im = 3"
      with ax have "axis = -3 \<or> axis = -2 \<or> axis = -1 \<or> axis = 0 \<or> axis = 1 \<or> axis = 2"
        by (intro axis_cases_3) simp_all
      from moveaxis_chords_3[OF this] show ?thesis by (simp only: K_def k3)
    qed
  qed
  then obtain d dims2 where d: "setitem (map int [0..<K]) axis 0 = Inr d"
    and d2: "setitem d 0 axis = Inr dims2"
    and mv: "\<And>a::bool ndarray. moveaxis a (map int [0..<K]) dims2 =
         (if ndim a = K then Inr (transpose_nd a (axis_order K axis))
          else if ndim a < K then Inl AxisError else moveaxis a (map int [0..<K]) dims2)"
    by blast
  define C where "C = raw_chords im spacing axis"
  have mv1: "moveaxis im (map int [0..<K]) dims2 = Inr (transpose_nd im (axis_order K axis))"
    using mv[of im] by (simp add: K_def)
  have step: "apply_chords im spacing axis trim_edges =
     (case (if trim_edges then trim_chords C else Inr C) of
        Inl e \<Rightarrow> Inl e
      | Inr c \<Rightarrow> moveaxis c (map int [0..<K]) dims2)"
    using sp atleast_3d_ndim[of "transpose_nd im (axis_order K axis)"]
    unfolding apply_chords_def K_def[symmetric] C_def raw_chords_def
    by (simp add: d d2 mv1 sampling_mask_eq Let_def K_def[symmetric])
  have CK: "ndim C \<le> K" unfolding C_def K_def by (rule raw_chords_ndim[OF k])
  have fin: "moveaxis c (map int [0..<K]) dims2 =
     (if ndim c = K then Inr (transpose_nd c (axis_order K axis)) else Inl AxisError)"
    if "shape c = shape C" for c :: "bool ndarray"
  proof -
    have "ndim c \<le> K" using CK that by (simp add: ndim_def)
    then show ?thesis using mv[of c] by auto
  qed
  define X where "X = (if trim_edges then trim_chords C else Inr C)"
  have "(case X of Inl e \<Rightarrow> Inl e | Inr c \<Rightarrow> moveaxis c (map int [0..<K]) dims2) =
        (case X of Inl e \<Rightarrow> Inl e
         | Inr c \<Rightarrow> if ndim c = K then Inr (transpose_nd c (axis_order K axis))
                    else Inl AxisError)"
  proof (cases X)
    case (Inl e)
    then show ?thesis by simp
  next
    case (Inr c)
    then have "shape c = shape C"
      unfolding X_def by (auto split: if_splits dest: trim_chords_shape)
    from fin[OF this] Inr show ?thesis by simp
  qed
  then show ?thesis
    unfolding step X_def C_def K_def .
qed


lemma shape_2: "ndim a = 2 \<Longrightarrow> \<exists>m n. shape a = [m, n]"
  by (auto simp: ndim_def length_Suc_conv numeral_2_eq_2)

lemma shape_3: "ndim a = 3 \<Longrightarrow> \<exists>m n l. shape a = [m, n, l]"
  by (auto simp: ndim_def length_Suc_conv numeral_3_eq_3)

lemma in_bounds_2: "in_bounds [m, n] idx \<longleftrightarrow> (\<exists>i j. idx = [i, j] \<and> i < m \<and> j < n)"
  by (auto simp: in_bounds_def list_all2_Cons2)

lemma in_bounds_3:
  "in_bounds [m, n, l] idx \<longleftrightarrow> (\<exists>i j h. idx = [i, j, h] \<and> i < m \<and> j < n \<and> h < l)"
  by (auto simp: in_bounds_def list_all2_Cons2)

lemmas chords_simps = raw_chords_def squeeze_def atleast_3d_def transpose_nd_def axis_order_def
  sampling_mask_def ndim_def upt_2 upt_3 Let_def

lemma transposed_back_2:
  fixes c :: "bool ndarray"
  assumes k: "shape im = [m, n]"
    and ax: "axis = -2 \<or> axis = -1 \<or> axis = 0 \<or> axis = 1"
    and c: "shape c = shape (raw_chords im spacing axis)" "ndim c = 2"
      "\<And>idx. item c idx \<Longrightarrow> item (raw_chords im spacing axis) idx"
  shows "shape (transpose_nd c (axis_order 2 axis)) = shape im \<and>
     (\<forall>idx. in_bounds (shape im) idx \<longrightarrow> item (transpose_nd c (axis_order 2 axis)) idx
        \<longrightarrow> item im idx)"
proof -
  have m: "m \<noteq> 1" and n: "n \<noteq> 1"
    using c(1,2) ax k by (auto simp: chords_simps split: if_splits)
  have sh: "shape (transpose_nd c (axis_order 2 axis)) = shape im"
    using c(1) ax k m n by (auto simp: chords_simps)
  have "item im idx"
    if ib: "in_bounds (shape im) idx" and it: "item (transpose_nd c (axis_order 2 axis)) idx"
    for idx
  proof -
    obtain i j where idx: "idx = [i, j]"
      using ib unfolding k in_bounds_2 by blast
    from it have "item c (map (\<lambda>d. idx ! position d (axis_order 2 axis)) [0..<2])"
      using ax by (auto simp: transpose_nd_def axis_order_def upt_2)
    from c(3)[OF this] show ?thesis
      using ax k m n by (auto simp: chords_simps idx)
  qed
  with sh show ?thesis by blast
qed

lemma transposed_back_3:
  fixes c :: "bool ndarray"
  assumes k: "shape im = [m, n, l]"
    and ax: "axis = -3 \<or> axis = -2 \<or> axis = -1 \<or> axis = 0 \<or> axis = 1 \<or> axis = 2"
    and c: "shape c = shape (raw_chords im spacing axis)" "ndim c = 3"
      "\<And>idx. item c idx \<Longrightarrow> item (raw_chords im spacing axis) idx"
  shows "shape (transpose_nd c (axis_order 3 axis)) = shape im \<and>
     (\<forall>idx. in_bounds (shape im) idx \<longrightarrow> item (transpose_nd c (axis_order 3 axis)) idx
        \<longrightarrow> item im idx)"
proof -
  have m: "m \<noteq> 1" and n: "n \<noteq> 1" and l: "l \<noteq> 1"
    using c(1,2) ax k by (auto simp: chords_simps split: if_splits)
  have sh: "shape (transpose_nd c (axis_order 3 axis)) = shape im"
    using c(1) ax k m n l by (auto simp: chords_simps)
  have "item im idx"
    if ib: "in_bounds (shape im) idx" and it: "item (transpose_nd c (axis_order 3 axis)) idx"
    for idx
  proof -
    obtain i j h where idx: "idx = [i, j, h]"
      using ib unfolding k in_bounds_3 by blast
    from it have "item c (map (\<lambda>d. idx ! position d (axis_order 3 axis)) [0..<3])"
      using ax by (auto simp: transpose_nd_def axis_order_def upt_3)
    from c(3)[OF this] show ?thesis
      using ax k m n l by (auto simp: chords_simps idx)
  qed
  with sh show ?thesis by blast
qed


lemma raw_chords_facts_2:
  assumes k: "shape im = [m, n]"
    and ax: "axis = -2 \<or> axis = -1 \<or> axis = 0 \<or> axis = 1"
  shows "ndim (raw_chords im spacing axis) \<noteq> 2 \<Longrightarrow> m = 1 \<or> n = 1"
    and "list_ex (\<lambda>s. s = 0) (shape (raw_chords im spacing axis)) \<Longrightarrow> m = 0 \<or> n = 0"
  using ax k by (auto simp: chords_simps split: if_splits)

lemma raw_chords_facts_3:
  assumes k: "shape im = [m, n, l]"
    and ax: "axis = -3 \<or> axis = -2 \<or> axis = -1 \<or> axis = 0 \<or> axis = 1 \<or> axis = 2"
  shows "ndim (raw_chords im spacing axis) \<noteq> 3 \<Longrightarrow> m = 1 \<or> n = 1 \<or> l = 1"
    and "list_ex (\<lambda>s. s = 0) (shape (raw_chords im spacing axis)) \<Longrightarrow> m = 0 \<or> n = 0 \<or> l = 0"
  using ax k by (auto simp: chords_simps split: if_splits)

lemma apply_chords_outcome:
  assumes k: "ndim im = 2 \<or> ndim im = 3" and sp: "0 \<le> spacing"
    and ax: "- int (ndim im) \<le> axis" "axis < int (ndim im)"
  shows "case apply_chords im spacing axis trim_edges of
           Inr res \<Rightarrow> shape res = shape im \<and>
             (\<forall>idx. in_bounds (shape im) idx \<longrightarrow> item res idx \<longrightarrow> item im idx)
         | Inl e \<Rightarrow> (e = AxisError \<and> 1 \<in> set (shape im)) \<or>
             (e = ValueError \<and> trim_edges \<and> 0 \<in> set (shape im))"
proof -
  define C where "C = raw_chords im spacing axis"
  define X where "X = (if trim_edges then trim_chords C else Inr C)"
  define p where "p = axis_order (ndim im) axis"
  have unf: "apply_chords im spacing axis trim_edges =
     (case X of Inl e \<Rightarrow> Inl e
      | Inr c \<Rightarrow> if ndim c = ndim im then Inr (transpose_nd c p) else Inl AxisError)"
    unfolding X_def C_def p_def by (rule apply_chords_unfold[OF k sp ax])
  have one: "1 \<in> set (shape im)" if "ndim C \<noteq> ndim im"
  proof -
    from k show ?thesis
    proof
      assume k2: "ndim im = 2"
      then obtain m n where sh: "shape im = [m, n]" using shape_2 by blast
      from ax k2 have "axis = -2 \<or> axis = -1 \<or> axis = 0 \<or> axis = 1"
        by (intro axis_cases_2) simp_all
      from raw_chords_facts_2(1)[OF sh this, of spacing] that show ?thesis
        by (auto simp: C_def k2 sh)
    next
      assume k3: "ndim im = 3"
      then obtain m n l where sh: "shape im = [m, n, l]" using shape_3 by blast
      from ax k3 have "axis = -3 \<or> axis = -2 \<or> axis = -1 \<or> axis = 0 \<or> axis = 1 \<or> axis = 2"
        by (intro axis_cases_3) simp_all
      from raw_chords_facts_3(1)[OF sh this, of spacing] that show ?thesis
        by (auto simp: C_def k3 sh)
    qed
  qed
  have zero: "0 \<in> set (shape im)" if "list_ex (\<lambda>s. s = 0) (shape C)"
  proof -
    from k show ?thesis
    proof
      assume k2: "ndim im = 2"
      then obtain m n where sh: "shape im = [m, n]" using shape_2 by blast
      from ax k2 have "axis = -2 \<or> axis = -1 \<or> axis = 0 \<or> axis = 1"
        by (intro axis_cases_2) simp_all
      from raw_chords_facts_2(2)[OF sh this, of spacing] that show ?thesis
        by (auto simp: C_def sh)
    next
      assume k3: "ndim im = 3"
      then obtain m n l where sh: "shape im = [m, n, l]" using shape_3 by blast
      from ax k3 have "axis = -3 \<or> axis = -2 \<or> axis = -1 \<or> axis = 0 \<or> axis = 1 \<or> axis = 2"
        by (intro axis_cases_3) simp_all
      from raw_chords_facts_3(2)[OF sh this, of spacing] that show ?thesis
        by (auto simp: C_def sh)
    qed
  qed
  have tback: "shape (transpose_nd c p) = shape im \<and>
     (\<forall>idx. in_bounds (shape im) idx \<longrightarrow> item (transpose_nd c p) idx \<longrightarrow> item im idx)"
    if c: "shape c = shape C" "ndim c = ndim im" "\<And>idx. item c idx \<Longrightarrow> item C idx"
    for c :: "bool ndarray"
  proof -
    from k show ?thesis
    proof
      assume k2: "ndim im = 2"
      then obtain m n where sh: "shape im = [m, n]" using shape_2 by blast
      from ax k2 have a: "axis = -2 \<or> axis = -1 \<or> axis = 0 \<or> axis = 1"
        by (intro axis_cases_2) simp_all
      show ?thesis
        using transposed_back_2[OF sh a, of c spacing] c unfolding C_def p_def k2 by blast
    next
      assume k3: "ndim im = 3"
      then obtain m n l where sh: "shape im = [m, n, l]" using shape_3 by blast
      from ax k3 have a: "axis = -3 \<or> axis = -2 \<or> axis = -1 \<or> axis = 0 \<or> axis = 1 \<or> axis = 2"
        by (intro axis_cases_3) simp_all
      show ?thesis
        using transposed_back_3[OF sh a, of c spacing] c unfolding C_def p_def k3 by blast
    qed
  qed
  show ?thesis
  proof (cases X)
    case (Inl e)
    then have t: "trim_edges" "trim_chords C = Inl e"
      unfolding X_def by (auto split: if_splits)
    then have "list_ex (\<lambda>s. s = 0) (shape C)"
      using trim_chords_returns[of C] by auto
    with t have "e = ValueError" "0 \<in> set (shape im)"
      using trim_chords_fails[of C] zero by auto
    with Inl t(1) show ?thesis unfolding unf by simp
  next
    case (Inr c)
    then have c: "shape c = shape C" "\<And>idx. item c idx \<Longrightarrow> item C idx"
      unfolding X_def by (auto split: if_splits dest: trim_chords_shape trim_chords_subset)
    show ?thesis
    proof (cases "ndim c = ndim im")
      case True
      from tback[OF c(1) True c(2)] Inr True show ?thesis unfolding unf by simp
    next
      case False
      then have "ndim C \<noteq> ndim im" using c(1) by (simp add: ndim_def)
      from one[OF this] Inr False show ?thesis unfolding unf by simp
    qed
  qed
qed

text \<open>
  Claim C8. For a 2D or 3D grid, a spacing of at least 0 and an axis the call accepts,
  \<open>apply_chords\<close> either returns a mask of the shape of the grid in which every marked
  cell is a void cell of the grid, or it returns no mask at all: the latter only when a
  dimension of the grid has extent 1, or when trimming a grid with a dimension of extent 0.
\<close>

theorem apply_chords_marks_only_void:
  assumes "ndim im = 2 \<or> ndim im = 3" and "0 \<le> spacing"
    and "- int (ndim im) \<le> axis" and "axis < int (ndim im)"
  shows "case apply_chords im spacing axis trim_edges of
           Inr res \<Rightarrow> shape res = shape im \<and>
             (\<forall>idx. in_bounds (shape im) idx \<longrightarrow> item res idx \<longrightarrow> item im idx)
         | Inl e \<Rightarrow> 1 \<in> set (shape im) \<or> (trim_edges \<and> 0 \<in> set (shape im))"
  using apply_chords_outcome[OF assms, of trim_edges] by (auto split: sum.splits)

theorem apply_chords_marks_only_void_witness:
  "ndim \<lparr>shape = [2, 3], item = (\<lambda>idx. idx \<noteq> [0, 0])\<rparr> = 2 \<and> (0::int) \<le> 0 \<and> - 2 \<le> (1::int)
   \<and> (1::int) < 2 \<and> in_bounds [2, 3] [0, 0]
   \<and> (\<exists>res. apply_chords \<lparr>shape = [2, 3], item = (\<lambda>idx. idx \<noteq> [0, 0])\<rparr> 0 1 False = Inr res
          \<and> shape res = [2, 3] \<and> \<not> item res [0, 0])"
proof -
  let ?g = "\<lparr>shape = [2, 3], item = (\<lambda>idx. idx \<noteq> [0::nat, 0])\<rparr>"
  have h: "ndim ?g = 2 \<or> ndim ?g = 3" "(0::int) \<le> 0" "- int (ndim ?g) \<le> 1" "1 < int (ndim ?g)"
    by (simp_all add: ndim_def)
  have b: "in_bounds [2, 3] [0, 0]" by (simp add: in_bounds_def)
  from apply_chords_marks_only_void[OF h, of False] b
  have "\<exists>res. apply_chords ?g 0 1 False = Inr res \<and> shape res = [2, 3] \<and> \<not> item res [0, 0]"
    by (auto split: sum.splits)
  then show ?thesis using b by (simp add: ndim_def)
qed

text \<open>
  Claim C5 fails on the code. The docstring promises an array "of the same size as im",
  but \<open>squeeze\<close> removes every dimension of extent 1, so on a grid with such a dimension
  the second \<open>moveaxis\<close> is given more axes than the array has and raises: a fully void
  3 by 1 grid gets no array back, with or without trimming.
\<close>

theorem apply_chords_singleton_dimension:
  "view (apply_chords \<lparr>shape = [3, 1], item = (\<lambda>idx. True)\<rparr> 0 0 False) = Inl AxisError
   \<and> view (apply_chords \<lparr>shape = [3, 1], item = (\<lambda>idx. True)\<rparr> 0 0 True) = Inl AxisError"
  by code_simp

text \<open>
  Claim C6 fails on the code for a negative axis: the fully void 2 by 3 grid with axis -1
  is processed, and marks what axis 1 marks.
\<close>

theorem apply_chords_negative_axis_accepted:
  "view (apply_chords \<lparr>shape = [2, 3], item = (\<lambda>idx. True)\<rparr> 0 (- 1) False) =
     Inr ([2, 3], [True, True, True, False, False, False])"
  by code_simp

text \<open>
  Claim C6 as amended. With a spacing of at least 0, \<open>apply_chords\<close> fails with the
  IndexError of the assignment \<^verbatim>\<open>dims2[axis] = 0\<close> whenever the axis is at least the
  number of dimensions or below its negation. An axis from the negated number of
  dimensions up to -1 is accepted: on a 2D or 3D grid the call does what it does for
  that axis plus the number of dimensions.
\<close>

theorem apply_chords_axis_range:
  "(0 \<le> spacing \<longrightarrow> (axis < - int (ndim im) \<or> int (ndim im) \<le> axis) \<longrightarrow>
      apply_chords im spacing axis trim_edges = Inl IndexError)
   \<and> ((ndim im = 2 \<or> ndim im = 3) \<longrightarrow> - int (ndim im) \<le> axis \<longrightarrow> axis < 0 \<longrightarrow>
      apply_chords im spacing axis trim_edges =
      apply_chords im spacing (axis + int (ndim im)) trim_edges)"
proof (intro conjI impI)
  assume "0 \<le> spacing" "axis < - int (ndim im) \<or> int (ndim im) \<le> axis"
  then show "apply_chords im spacing axis trim_edges = Inl IndexError"
    by (auto simp add: apply_chords_def setitem_def)
next
  assume k: "ndim im = 2 \<or> ndim im = 3" and ax: "- int (ndim im) \<le> axis" "axis < 0"
  have o: "axis_order (ndim im) (axis + int (ndim im)) = axis_order (ndim im) axis"
    using ax by (simp add: axis_order_def)
  show "apply_chords im spacing axis trim_edges =
      apply_chords im spacing (axis + int (ndim im)) trim_edges"
  proof (cases "0 \<le> spacing")
    case True
    have "apply_chords im spacing (axis + int (ndim im)) trim_edges =
       (case (if trim_edges then trim_chords (raw_chords im spacing (axis + int (ndim im)))
              else Inr (raw_chords im spacing (axis + int (ndim im)))) of
          Inl e \<Rightarrow> Inl e
        | Inr c \<Rightarrow> if ndim c = ndim im
                   then Inr (transpose_nd c (axis_order (ndim im) (axis + int (ndim im))))
                   else Inl AxisError)"
      using ax by (intro apply_chords_unfold[OF k True]) simp_all
    moreover have "apply_chords im spacing axis trim_edges =
       (case (if trim_edges then trim_chords (raw_chords im spacing axis)
              else Inr (raw_chords im spacing axis)) of
          Inl e \<Rightarrow> Inl e
        | Inr c \<Rightarrow> if ndim c = ndim im then Inr (transpose_nd c (axis_order (ndim im) axis))
                   else Inl AxisError)"
      using ax by (intro apply_chords_unfold[OF k True]) simp_all
    moreover have "raw_chords im spacing (axis + int (ndim im)) = raw_chords im spacing axis"
      unfolding raw_chords_def o ..
    ultimately show ?thesis by (simp only: o)
  next
    case False
    then show ?thesis by (simp add: apply_chords_def)
  qed
qed

theorem apply_chords_axis_range_witness:
  "apply_chords \<lparr>shape = [2, 3], item = (\<lambda>idx. True)\<rparr> 0 2 False = Inl IndexError
   \<and> apply_chords \<lparr>shape = [2, 3], item = (\<lambda>idx. True)\<rparr> 0 (- 3) False = Inl IndexError
   \<and> apply_chords \<lparr>shape = [2, 3], item = (\<lambda>idx. True)\<rparr> 0 (- 1) False =
     apply_chords \<lparr>shape = [2, 3], item = (\<lambda>idx. True)\<rparr> 0 1 False"
  using apply_chords_axis_range[of 0 2 "\<lparr>shape = [2, 3], item = (\<lambda>idx. True)\<rparr>" False]
    apply_chords_axis_range[of 0 "- 3" "\<lparr>shape = [2, 3], item = (\<lambda>idx. True)\<rparr>" False]
    apply_chords_axis_range[of 0 "- 1" "\<lparr>shape = [2, 3], item = (\<lambda>idx. True)\<rparr>" False]
  by (simp add: ndim_def)

text \<open>
  Claim C7 fails on the code for an input of more than three dimensions. The message of
  the check is "Must be a 3D image to use this function", but the check is
  \<^verbatim>\<open>im.ndim < 3\<close>: a fully void 2 by 2 by 2 by 2 grid is not rejected, and labelled
  cells come back. A 2D grid is rejected.
\<close>

theorem apply_chords_3D_accepts_4D:
  "view (apply_chords_3D \<lparr>shape = [2, 2, 2, 2], item = (\<lambda>idx. True)\<rparr> 0 False) =
     Inr ([2, 2, 2, 2], [1, 1, 0, 0, 0, 0, 0, 0, 1, 1, 0, 0, 0, 0, 0, 0])
   \<and> view (apply_chords_3D \<lparr>shape = [3, 5], item = (\<lambda>idx. True)\<rparr> 0 False) =
     Inl (Exception ''Must be a 3D image to use this function'')"
  by code_simp



section \<open>two_point_correlation_bf\<close>

text \<open>
  The comparisons of a squared distance with an integer edge are the comparisons of the
  distance itself with the edge.
\<close>

lemma sqdist_nonneg: "0 \<le> sqdist p q"
  unfolding sqdist_def by (rule sum_list_nonneg) auto

lemma edge_le_dist_sqrt:
  assumes "0 \<le> d"
  shows "edge_le_dist e d \<longleftrightarrow> real_of_int e \<le> sqrt (real_of_int d)"
proof (cases "e \<le> 0")
  case True
  then have "real_of_int e \<le> 0" by simp
  also have "0 \<le> sqrt (real_of_int d)" using assms by simp
  finally show ?thesis using True by (simp add: edge_le_dist_def)
next
  case False
  then have e: "0 \<le> real_of_int e" by simp
  have "real_of_int e \<le> sqrt (real_of_int d) \<longleftrightarrow> (real_of_int e)\<^sup>2 \<le> real_of_int d"
    using e assms by (metis of_int_0_le_iff real_le_rsqrt real_sqrt_ge_0_iff
        real_sqrt_le_iff real_sqrt_abs abs_of_nonneg)
  also have "\<dots> \<longleftrightarrow> e * e \<le> d"
    by (metis of_int_le_iff of_int_mult power2_eq_square)
  finally show ?thesis using False by (simp add: edge_le_dist_def)
qed

lemma dist_less_edge_sqrt:
  assumes "0 \<le> d"
  shows "dist_less_edge d e \<longleftrightarrow> sqrt (real_of_int d) < real_of_int e"
proof -
  have "dist_less_edge d e \<longleftrightarrow> \<not> edge_le_dist e d"
    by (auto simp: dist_less_edge_def edge_le_dist_def)
  then show ?thesis using edge_le_dist_sqrt[OF assms, of e] by auto
qed

lemma div_times_le:
  fixes s :: int
  assumes "0 < s"
  shows "(a div s) * s \<le> a"
proof -
  have e: "s * (a div s) + a mod s = a" by (rule mult_div_mod_eq)
  have m: "0 \<le> a mod s" using assms by simp
  from e m have "s * (a div s) \<le> a" by linarith
  then show ?thesis by (simp add: mult.commute)
qed



lemma div_large_pos:
  fixes s :: int
  assumes "0 < s" "s \<le> a"
  shows "1 \<le> a div s"
proof -
  have "s div s \<le> a div s" using assms by (intro zdiv_mono1) simp_all
  then show ?thesis using assms(1) by simp
qed



lemma py_range_bounds:
  assumes "0 < step" and "py_range 0 (int n) step = Inr xs" and "x \<in> set xs"
  shows "0 \<le> x \<and> x < int n"
proof -
  from assms obtain k where k: "k < nat ((int n + step - 1) div step)" and x: "x = int k * step"
    by (auto simp: py_range_def)
  have "int k + 1 \<le> (int n + step - 1) div step" using k by linarith
  then have "(int k + 1) * step \<le> ((int n + step - 1) div step) * step"
    using assms(1) by (simp add: mult_right_mono)
  also have "\<dots> \<le> int n + step - 1"
    by (rule div_times_le[OF assms(1)])
  finally have "int k * step < int n" by (simp add: algebra_simps)
  with x assms(1) show ?thesis by simp
qed

lemma py_range_nonempty:
  assumes "0 < step" and "0 < n"
  shows "\<exists>xs. py_range 0 (int n) step = Inr xs \<and> xs \<noteq> []"
proof -
  have "1 \<le> (int n + step - 1) div step"
    using assms by (intro div_large_pos) simp_all
  then show ?thesis using assms(1) by (simp add: py_range_def)
qed


lemma sample_points_in_bounds:
  assumes "length sh = 2 \<or> length sh = 3" and "0 < spacing"
  shows "\<exists>crds. sample_points sh spacing = Inr crds \<and>
           (\<forall>p \<in> set crds. in_bounds sh (map nat p))"
proof -
  have r: "\<exists>xs. py_range 0 (int n) spacing = Inr xs" for n
    using assms(2) by (simp add: py_range_def)
  from assms(1) show ?thesis
  proof
    assume "length sh = 2"
    then obtain d0 d1 where sh: "sh = [d0, d1]"
      by (auto simp: length_Suc_conv numeral_2_eq_2)
    obtain xs ys where xs: "py_range 0 (int d0) spacing = Inr xs"
      and ys: "py_range 0 (int d1) spacing = Inr ys"
      using r by blast
    have "in_bounds sh (map nat [x, y])" if "x \<in> set xs" "y \<in> set ys" for x y
      using py_range_bounds[OF assms(2) xs that(1)] py_range_bounds[OF assms(2) ys that(2)]
      by (auto simp add: sh in_bounds_def)
    then show ?thesis by (auto simp: sample_points_def sh xs ys)
  next
    assume "length sh = 3"
    then obtain d0 d1 d2 where sh: "sh = [d0, d1, d2]"
      by (auto simp: length_Suc_conv numeral_3_eq_3)
    obtain xs ys zs where xs: "py_range 0 (int d0) spacing = Inr xs"
      and ys: "py_range 0 (int d1) spacing = Inr ys"
      and zs: "py_range 0 (int d2) spacing = Inr zs"
      using r by blast
    have "in_bounds sh (map nat [x, y, z])" if "x \<in> set xs" "y \<in> set ys" "z \<in> set zs"
      for x y z
      using py_range_bounds[OF assms(2) xs that(1)] py_range_bounds[OF assms(2) ys that(2)]
        py_range_bounds[OF assms(2) zs that(3)]
      by (auto simp add: sh in_bounds_def)
    then show ?thesis by (auto simp: sample_points_def sh xs ys zs)
  qed
qed



lemma sample_points_nonempty:
  assumes "length sh = 2 \<or> length sh = 3" and "0 < spacing" and "0 \<notin> set sh"
    and "sample_points sh spacing = Inr crds"
  shows "crds \<noteq> []"
proof -
  have r: "\<exists>xs. py_range 0 (int n) spacing = Inr xs \<and> xs \<noteq> []" if "0 < n" for n
    using assms(2) that by (rule py_range_nonempty)
  from assms(1) show ?thesis
  proof
    assume "length sh = 2"
    then obtain d0 d1 where sh: "sh = [d0, d1]"
      by (auto simp: length_Suc_conv numeral_2_eq_2)
    have p: "0 < d0" "0 < d1" using assms(3) by (auto simp: sh)
    obtain x xs y ys where xs: "py_range 0 (int d0) spacing = Inr (x # xs)"
      and ys: "py_range 0 (int d1) spacing = Inr (y # ys)"
      using r[OF p(1)] r[OF p(2)] by (metis list.exhaust)
    show ?thesis using assms(4) by (auto simp: sample_points_def sh xs ys)
  next
    assume "length sh = 3"
    then obtain d0 d1 d2 where sh: "sh = [d0, d1, d2]"
      by (auto simp: length_Suc_conv numeral_3_eq_3)
    have p: "0 < d0" "0 < d1" "0 < d2" using assms(3) by (auto simp: sh)
    obtain x xs y ys z zs where xs: "py_range 0 (int d0) spacing = Inr (x # xs)"
      and ys: "py_range 0 (int d1) spacing = Inr (y # ys)"
      and zs: "py_range 0 (int d2) spacing = Inr (z # zs)"
      using r[OF p(1)] r[OF p(2)] r[OF p(3)] by (metis list.exhaust)
    show ?thesis using assms(4) by (auto simp: sample_points_def sh xs ys zs)
  qed
qed


lemma positions_all:
  assumes "False \<notin> set keep"
  shows "positions (BoolHits keep) (length keep) = Inr [0..<length keep]"
proof -
  have "keep ! i" if "i < length keep" for i
    using assms that by (metis nth_mem)
  then have "filter (\<lambda>i. keep ! i) [0..<length keep] = [0..<length keep]"
    by (intro filter_True) simp
  then show ?thesis by (simp add: positions_def)
qed

lemma np_divide_self: "np_divide a a = (if a = 0 then NaN else Val 1)"
  by (simp add: np_divide_def)

lemma zip_self_map: "map f (zip xs xs) = map (\<lambda>x. f (x, x)) xs"
  by (induction xs) simp_all

lemma two_point_all_void:
  assumes k: "ndim a = 2 \<or> ndim a = 3" and sp: "0 < spacing"
    and cells: "0 \<notin> set (shape a)"
    and void: "\<forall>idx. in_bounds (shape a) idx \<longrightarrow> item a idx"
  shows "\<exists>edges h. two_point_histograms empty_ok (BoolImage a) spacing = Inr (edges, h, h) \<and>
           two_point_correlation_bf empty_ok (BoolImage a) spacing =
             Inr (butlast edges, map (\<lambda>c. if c = 0 then NaN else Val 1) h)"
proof -
  from sample_points_in_bounds[of "shape a" spacing] k sp
  obtain crds where crds: "sample_points (shape a) spacing = Inr crds"
    and inb: "\<forall>p \<in> set crds. in_bounds (shape a) (map nat p)"
    by (auto simp: ndim_def)
  have ne: "crds \<noteq> []"
    using k sp cells crds by (intro sample_points_nonempty[of "shape a" spacing]) (auto simp: ndim_def)
  obtain edges where edges: "py_range 0 (int (list_min (shape a) div 2)) spacing = Inr edges"
    using sp by (simp add: py_range_def)
  define keep where "keep = map (\<lambda>p. item a (map nat p)) crds"
  let ?dmat = "cdist crds crds"
  have hl: "length keep = length crds" by (simp add: keep_def)
  have ht: "False \<notin> set keep" using inb void by (auto simp: keep_def)
  have g: "getitem_points empty_ok (BoolImage a) crds = Inr (BoolHits keep)"
    using ne by (simp add: getitem_points_def read_points_def keep_def)
  have p: "positions (BoolHits keep) (length crds) = Inr [0..<length crds]"
    using positions_all[OF ht] by (simp add: hl)
  have dl: "length ?dmat = length crds" by (simp add: cdist_def)
  have s1: "map (\<lambda>i. ?dmat ! i) [0..<length crds] = ?dmat"
    using map_nth[of ?dmat] by (simp only: dl)
  have s2: "map (\<lambda>row. map (\<lambda>j. row ! j) [0..<length crds]) ?dmat = ?dmat"
  proof -
    have "map (\<lambda>j. row ! j) [0..<length crds] = row" if "row \<in> set ?dmat" for row
    proof -
      from that have "length row = length crds" by (auto simp: cdist_def)
      then show ?thesis using map_nth[of row] by simp
    qed
    then show ?thesis by (simp add: map_idI)
  qed
  have h: "two_point_histograms empty_ok (BoolImage a) spacing =
      Inr (edges, histogram (concat ?dmat) edges, histogram (concat ?dmat) edges)"
    unfolding two_point_histograms_def Let_def
    by (simp add: image_shape_def crds edges g p s1 s2 del: map_map)
  then show ?thesis
    by (simp add: two_point_correlation_bf_def zip_self_map np_divide_self)
qed









text \<open>
  Claim C10 fails on the code for a grid of integers. On the 6 by 6 grid whose cells all
  hold 1 (100% void), with spacing 1, \<open>hits\<close> is 36 times the integer 1, which
  \<^verbatim>\<open>dmat[hits, :]\<close> reads as 36 times row 1 of the distance matrix and
  \<^verbatim>\<open>dmat[:, hits]\<close> as 36 times column 1: the histograms are [36, 252] and [1296, 0],
  and the returned ratios are 36 and 0, not 1 and 1.
\<close>

theorem two_point_integer_all_void:
  "two_point_histograms empty_ok (IntImage \<lparr>shape = [6, 6], item = (\<lambda>idx. 1)\<rparr>) 1
     = Inr ([0, 1, 2], [36, 252], [1296, 0])
   \<and> two_point_correlation_bf empty_ok (IntImage \<lparr>shape = [6, 6], item = (\<lambda>idx. 1)\<rparr>) 1
     = Inr ([0, 1], [Val 36, Val 0])"
proof -
  have h: "two_point_histograms empty_ok (IntImage \<lparr>shape = [6, 6], item = (\<lambda>idx. 1)\<rparr>) 1
      = Inr ([0, 1, 2], [36, 252], [1296, 0])"
    by code_simp
  show ?thesis by (simp add: h two_point_correlation_bf_def np_divide_def)
qed

text \<open>
  On a boolean grid the property of claim C10 holds. On a 2D or 3D boolean grid that has
  cells, all of them void, with a spacing above 0, the two histograms of
  \<open>two_point_correlation_bf\<close> are the same list of counts, and the returned ratio is 1 in
  every bin whose count is not zero (and \<open>nan\<close>, from \<open>0/0\<close>, in the others).
\<close>

theorem two_point_all_void_boolean:
  assumes "ndim a = 2 \<or> ndim a = 3" and "0 < spacing" and "0 \<notin> set (shape a)"
    and "\<forall>idx. in_bounds (shape a) idx \<longrightarrow> item a idx"
  shows "\<exists>edges h. two_point_histograms empty_ok (BoolImage a) spacing = Inr (edges, h, h) \<and>
           two_point_correlation_bf empty_ok (BoolImage a) spacing =
             Inr (butlast edges, map (\<lambda>c. if c = 0 then NaN else Val 1) h)"
  using assms by (rule two_point_all_void)

theorem two_point_all_void_boolean_witness:
  "ndim \<lparr>shape = [4, 4], item = (\<lambda>idx. True)\<rparr> = 2 \<and> (0::int) < 1
   \<and> two_point_histograms False (BoolImage \<lparr>shape = [4, 4], item = (\<lambda>idx. True)\<rparr>) 1
       = Inr ([0, 1], [64], [64])
   \<and> two_point_correlation_bf False (BoolImage \<lparr>shape = [4, 4], item = (\<lambda>idx. True)\<rparr>) 1
       = Inr ([0], [Val 1])"
proof -
  let ?g = "\<lparr>shape = [4, 4], item = (\<lambda>idx. True)\<rparr>"
  have h: "ndim ?g = 2 \<or> ndim ?g = 3" "(0::int) < 1" "0 \<notin> set (shape ?g)"
    "\<forall>idx. in_bounds (shape ?g) idx \<longrightarrow> item ?g idx"
    by (simp_all add: ndim_def)
  from two_point_all_void_boolean[OF h, of False] obtain edges h
    where e: "two_point_histograms False (BoolImage ?g) 1 = Inr (edges, h, h)"
      and r: "two_point_correlation_bf False (BoolImage ?g) 1 =
                Inr (butlast edges, map (\<lambda>c. if c = 0 then NaN else Val 1) h)"
    by blast
  have v: "two_point_histograms False (BoolImage ?g) 1 = Inr ([0, 1], [64], [64])"
    by code_simp
  from e v have "edges = [0, 1]" "h = [64]" by simp_all
  with r v show ?thesis by (simp add: ndim_def)
qed


section \<open>Labelling finds the connected components\<close>

lemma set_indices: "set (indices sh) = {idx. in_bounds sh idx}"
proof (induction sh)
  case Nil
  then show ?case by (auto simp: in_bounds_def)
next
  case (Cons n ns)
  show ?case
  proof (rule set_eqI)
    fix idx
    show "idx \<in> set (indices (n # ns)) \<longleftrightarrow> idx \<in> {idx. in_bounds (n # ns) idx}"
      using Cons by (cases idx) (auto simp: in_bounds_def)
  qed
qed

lemma length_indices: "length (indices sh) = prod_list sh"
proof (induction sh)
  case Nil
  then show ?case by simp
next
  case (Cons n ns)
  have "length (concat (map (\<lambda>i. map ((#) i) (indices ns)) [0..<n])) = n * length (indices ns)"
    by (induction n) (simp_all add: length_concat)
  then show ?case using Cons by simp
qed

lemma in_bounds_length: "in_bounds sh idx \<Longrightarrow> length idx = length sh"
  by (auto simp: in_bounds_def dest: list_all2_lengthD)

lemma in_bounds_nth: "in_bounds sh idx \<longleftrightarrow> length idx = length sh \<and> (\<forall>d < length sh. idx ! d < sh ! d)"
  by (auto simp: in_bounds_def list_all2_conv_all_nth)

lemma adjacent_sym: "adjacent i j \<Longrightarrow> adjacent j i"
  unfolding adjacent_def by (metis)

lemma neighbours_iff:
  assumes "in_bounds sh i"
  shows "j \<in> set (neighbours sh i) \<longleftrightarrow> in_bounds sh j \<and> adjacent i j"
proof
  assume "j \<in> set (neighbours sh i)"
  then obtain d where d: "d < length sh"
    and j: "(0 < i ! d \<and> j = i[d := i ! d - 1]) \<or> (i ! d + 1 < sh ! d \<and> j = i[d := i ! d + 1])"
    by (auto simp: neighbours_def split: if_splits)
  have li: "length i = length sh" using assms by (rule in_bounds_length)
  from j show "in_bounds sh j \<and> adjacent i j"
  proof
    assume a: "0 < i ! d \<and> j = i[d := i ! d - 1]"
    have "in_bounds sh j"
      using assms a d li unfolding in_bounds_nth
      by (auto simp: nth_list_update less_imp_diff_less)
    moreover have "adjacent i j"
      unfolding adjacent_def using a d li by (auto intro!: exI[of _ d])
    ultimately show ?thesis by blast
  next
    assume a: "i ! d + 1 < sh ! d \<and> j = i[d := i ! d + 1]"
    have "in_bounds sh j"
      using assms a d li unfolding in_bounds_nth
      by (auto simp: nth_list_update)
    moreover have "adjacent i j"
      unfolding adjacent_def using a d li by (auto intro!: exI[of _ d])
    ultimately show ?thesis by blast
  qed
next
  assume h: "in_bounds sh j \<and> adjacent i j"
  have li: "length i = length sh" using assms by (rule in_bounds_length)
  from h obtain d where d: "d < length i"
    and s: "i ! d = Suc (j ! d) \<or> j ! d = Suc (i ! d)"
    and r: "\<forall>e < length i. e \<noteq> d \<longrightarrow> i ! e = j ! e"
    and lj: "length i = length j"
    unfolding adjacent_def by blast
  from s show "j \<in> set (neighbours sh i)"
  proof
    assume a: "i ! d = Suc (j ! d)"
    have "j = i[d := i ! d - 1]"
      using a r lj d by (intro nth_equalityI) (auto simp: nth_list_update)
    then show ?thesis
      using a d li by (auto simp: neighbours_def intro!: bexI[of _ d])
  next
    assume a: "j ! d = Suc (i ! d)"
    have "j = i[d := i ! d + 1]"
      using a r lj d by (intro nth_equalityI) (auto simp: nth_list_update)
    moreover have "i ! d + 1 < sh ! d"
      using h a d li unfolding in_bounds_nth by (metis Suc_eq_plus1)
    ultimately show ?thesis
      using d li by (auto simp: neighbours_def intro!: bexI[of _ d])
  qed
qed


lemma link_fg: "(i, j) \<in> (link a)\<^sup>* \<Longrightarrow> i \<in> fg_cells a \<Longrightarrow> j \<in> fg_cells a"
  by (induction rule: rtrancl_induct) (auto simp: link_def)

lemma link_sym: "sym (link a)"
  by (auto simp: sym_def link_def adjacent_sym)

lemma link_rtrancl_sym: "(i, j) \<in> (link a)\<^sup>* \<Longrightarrow> (j, i) \<in> (link a)\<^sup>*"
  using link_sym[of a] by (meson sym_rtrancl symD)

lemma component_subset: "s \<in> fg_cells a \<Longrightarrow> component_of a s \<subseteq> fg_cells a"
  by (auto simp: component_of_def dest: link_fg)

lemma fg_cells_indices: "fg_cells a \<subseteq> set (indices (shape a))"
  by (auto simp: fg_cells_def set_indices)

lemma finite_fg_cells: "finite (fg_cells a)"
  using fg_cells_indices by (rule finite_subset) simp

lemma card_fg_cells: "card (fg_cells a) \<le> prod_list (shape a)"
proof -
  have "card (fg_cells a) \<le> card (set (indices (shape a)))"
    by (intro card_mono fg_cells_indices) simp
  also have "\<dots> \<le> length (indices (shape a))" by (rule card_length)
  finally show ?thesis by (simp add: length_indices)
qed

lemma link_step:
  assumes "i \<in> fg_cells a"
  shows "(i, j) \<in> link a \<longleftrightarrow> j \<in> set (neighbours (shape a) i) \<and> item a j"
  using assms neighbours_iff[of "shape a" i j]
  by (auto simp: link_def fg_cells_def)

lemma flood_subset:
  assumes "s \<in> fg_cells a" "set S \<subseteq> component_of a s"
  shows "set (flood n (item a) (shape a) S) \<subseteq> component_of a s"
  using assms(2)
proof (induction n arbitrary: S)
  case 0
  then show ?case by simp
next
  case (Suc n)
  define new where
    "new = filter (\<lambda>j. item a j \<and> j \<notin> set S) (remdups (concat (map (neighbours (shape a)) S)))"
  have "set new \<subseteq> component_of a s"
  proof
    fix j assume "j \<in> set new"
    then obtain i where i: "i \<in> set S" and j: "j \<in> set (neighbours (shape a) i)" "item a j"
      by (auto simp: new_def)
    from i Suc.prems have si: "(s, i) \<in> (link a)\<^sup>*" by (auto simp: component_of_def)
    then have "i \<in> fg_cells a" using assms(1) by (rule link_fg)
    then have "(i, j) \<in> link a" using j by (simp add: link_step)
    with si show "j \<in> component_of a s" by (auto simp: component_of_def)
  qed
  then have "set (S @ new) \<subseteq> component_of a s" using Suc.prems by simp
  from Suc.IH[OF this] Suc.prems show ?case
    by (simp add: Let_def new_def[symmetric])
qed

lemma flood_superset:
  assumes "s \<in> fg_cells a" "s \<in> set S" "set S \<subseteq> component_of a s"
    "card (component_of a s) \<le> n + card (set S)"
  shows "component_of a s \<subseteq> set (flood n (item a) (shape a) S)"
  using assms(2-4)
proof (induction n arbitrary: S)
  case 0
  have "finite (component_of a s)"
    using component_subset[OF assms(1)] finite_fg_cells by (rule finite_subset)
  then have "set S = component_of a s"
    using 0 by (intro card_seteq) simp_all
  then show ?case by simp
next
  case (Suc n)
  define new where
    "new = filter (\<lambda>j. item a j \<and> j \<notin> set S) (remdups (concat (map (neighbours (shape a)) S)))"
  have fin: "finite (component_of a s)"
    using component_subset[OF assms(1)] finite_fg_cells by (rule finite_subset)
  show ?case
  proof (cases "new = []")
    case True
    have closed: "j \<in> set S" if "i \<in> set S" "(i, j) \<in> link a" for i j
    proof -
      from that(1) Suc.prems(2) have "(s, i) \<in> (link a)\<^sup>*" by (auto simp: component_of_def)
      then have "i \<in> fg_cells a" using assms(1) by (rule link_fg)
      with that(2) have "j \<in> set (neighbours (shape a) i)" "item a j"
        by (simp_all add: link_step)
      then have "j \<notin> set S \<Longrightarrow> j \<in> set new" using that(1) by (auto simp: new_def)
      with True show ?thesis by auto
    qed
    have "j \<in> set S" if "(s, j) \<in> (link a)\<^sup>*" for j
      using that by (induction rule: rtrancl_induct) (auto intro: Suc.prems(1) closed)
    then show ?thesis
      using True by (auto simp: Let_def new_def[symmetric] component_of_def)
  next
    case False
    then obtain x where x: "x \<in> set new" by (cases new) auto
    then have xs: "x \<notin> set S" by (simp add: new_def)
    have sub: "set (S @ new) \<subseteq> component_of a s"
    proof -
      have "set (flood (Suc 0) (item a) (shape a) S) \<subseteq> component_of a s"
        using assms(1) Suc.prems(2) by (rule flood_subset)
      then show ?thesis using False by (simp add: Let_def new_def[symmetric])
    qed
    have "set S \<subset> set (S @ new)" using x xs by auto
    then have "card (set S) < card (set (S @ new))"
      by (intro psubset_card_mono) simp_all
    then have c: "card (component_of a s) \<le> n + card (set (S @ new))"
      using Suc.prems(3) by linarith
    have "s \<in> set (S @ new)" using Suc.prems(1) by simp
    from Suc.IH[OF this sub c] False show ?thesis
      by (simp add: Let_def new_def[symmetric])
  qed
qed

lemma flood_component:
  assumes "s \<in> fg_cells a"
  shows "set (flood (prod_list (shape a)) (item a) (shape a) [s]) = component_of a s"
proof
  show "set (flood (prod_list (shape a)) (item a) (shape a) [s]) \<subseteq> component_of a s"
    using assms by (intro flood_subset) (auto simp: component_of_def)
  have "card (component_of a s) \<le> card (fg_cells a)"
    using component_subset[OF assms] finite_fg_cells by (intro card_mono)
  also have "\<dots> \<le> prod_list (shape a)" by (rule card_fg_cells)
  finally have "card (component_of a s) \<le> prod_list (shape a) + card (set [s])" by simp
  then show "component_of a s \<subseteq> set (flood (prod_list (shape a)) (item a) (shape a) [s])"
    using assms by (intro flood_superset) (auto simp: component_of_def)
qed


lemma label_inv_init: "label_inv a {} (\<lambda>idx. 0) 0"
  by (simp add: label_inv_def)

lemma label_inv_skip:
  assumes "label_inv a P lab n" "\<not> (item a i \<and> lab i = 0)"
  shows "label_inv a (insert i P) lab n"
proof -
  have "i \<in> fg_cells a \<longrightarrow> lab i \<noteq> 0"
    using assms(2) by (simp add: fg_cells_def)
  then have "\<forall>p \<in> insert i P. p \<in> fg_cells a \<longrightarrow> lab p \<noteq> 0"
    using assms(1) unfolding label_inv_def by simp
  then show ?thesis
    using assms(1) unfolding label_inv_def by simp
qed

lemma label_inv_step:
  assumes inv: "label_inv a P lab n" and i: "i \<in> fg_cells a" and l0: "lab i = 0"
  shows "label_inv a (insert i P) (\<lambda>j. if j \<in> component_of a i then Suc n else lab j) (Suc n)"
proof -
  let ?C = "component_of a i"
  let ?lab = "\<lambda>j. if j \<in> ?C then Suc n else lab j"
  from inv have le: "\<And>j. lab j \<le> n"
    and fg: "\<And>j. lab j \<noteq> 0 \<Longrightarrow> j \<in> fg_cells a"
    and cl: "\<And>x j. lab x \<noteq> 0 \<Longrightarrow> lab j = lab x \<longleftrightarrow> (x, j) \<in> (link a)\<^sup>*"
    and ex: "\<And>l. 0 < l \<Longrightarrow> l \<le> n \<Longrightarrow> \<exists>j. lab j = l"
    and pr: "\<And>p. p \<in> P \<Longrightarrow> p \<in> fg_cells a \<Longrightarrow> lab p \<noteq> 0"
    unfolding label_inv_def by blast+
  have iC: "i \<in> ?C" by (simp add: component_of_def)
  have unl: "lab j = 0" if "j \<in> ?C" for j
  proof (rule ccontr)
    assume n0: "lab j \<noteq> 0"
    from that have "(j, i) \<in> (link a)\<^sup>*"
      by (auto simp: component_of_def intro: link_rtrancl_sym)
    with cl[OF n0, of i] have "lab i = lab j" by simp
    with n0 l0 show False by simp
  qed
  have a1: "\<forall>j. ?lab j \<le> Suc n" using le by (auto simp: le_SucI)
  have a2: "\<forall>j. ?lab j \<noteq> 0 \<longrightarrow> j \<in> fg_cells a"
    using fg component_subset[OF i] by auto
  have a3: "\<forall>x j. ?lab x \<noteq> 0 \<longrightarrow> (?lab j = ?lab x \<longleftrightarrow> (x, j) \<in> (link a)\<^sup>*)"
  proof (intro allI impI)
    fix x j assume nz: "?lab x \<noteq> 0"
    show "?lab j = ?lab x \<longleftrightarrow> (x, j) \<in> (link a)\<^sup>*"
    proof (cases "x \<in> ?C")
      case True
      then have ix: "(i, x) \<in> (link a)\<^sup>*" by (simp add: component_of_def)
      have "j \<in> ?C \<longleftrightarrow> (x, j) \<in> (link a)\<^sup>*"
      proof
        assume "j \<in> ?C"
        then have "(i, j) \<in> (link a)\<^sup>*" by (simp add: component_of_def)
        with link_rtrancl_sym[OF ix] show "(x, j) \<in> (link a)\<^sup>*" by (rule rtrancl_trans)
      next
        assume "(x, j) \<in> (link a)\<^sup>*"
        with ix have "(i, j) \<in> (link a)\<^sup>*" by (rule rtrancl_trans)
        then show "j \<in> ?C" by (simp add: component_of_def)
      qed
      moreover have "lab j \<noteq> Suc n" using le[of j] by simp
      ultimately show ?thesis using True by auto
    next
      case False
      then have lx: "lab x \<noteq> 0" using nz by simp
      show ?thesis
      proof (cases "j \<in> ?C")
        case jC: True
        have "(x, j) \<notin> (link a)\<^sup>*"
        proof
          assume xj: "(x, j) \<in> (link a)\<^sup>*"
          from jC have "(i, j) \<in> (link a)\<^sup>*" by (simp add: component_of_def)
          from this link_rtrancl_sym[OF xj] have "(i, x) \<in> (link a)\<^sup>*" by (rule rtrancl_trans)
          with False show False by (simp add: component_of_def)
        qed
        moreover have "lab x \<noteq> Suc n" using le[of x] by simp
        ultimately show ?thesis using jC False by auto
      next
        case jC: False
        with False cl[OF lx, of j] show ?thesis by simp
      qed
    qed
  qed
  have a4: "\<forall>l. 0 < l \<and> l \<le> Suc n \<longrightarrow> (\<exists>j. ?lab j = l)"
  proof (intro allI impI)
    fix l assume l: "0 < l \<and> l \<le> Suc n"
    show "\<exists>j. ?lab j = l"
    proof (cases "l = Suc n")
      case True
      with iC show ?thesis by (intro exI[of _ i]) simp
    next
      case False
      with l obtain j where j: "lab j = l" using ex[of l] by auto
      with l have "j \<notin> ?C" using unl[of j] by auto
      with j show ?thesis by (intro exI[of _ j]) simp
    qed
  qed
  have a5: "\<forall>p \<in> insert i P. p \<in> fg_cells a \<longrightarrow> ?lab p \<noteq> 0"
    using pr iC by auto
  show ?thesis unfolding label_inv_def using a1 a2 a3 a4 a5 by blast
qed

lemma label_loop_inv:
  assumes "label_inv a P lab n" "set cells \<subseteq> set (indices (shape a))"
  shows "label_inv a (P \<union> set cells)
           (fst (label_loop (item a) (shape a) cells lab n))
           (snd (label_loop (item a) (shape a) cells lab n))"
  using assms
proof (induction cells arbitrary: P lab n)
  case Nil
  then show ?case by simp
next
  case (Cons i rest)
  have ib: "in_bounds (shape a) i" using Cons.prems(2) by (auto simp: set_indices)
  have rest: "set rest \<subseteq> set (indices (shape a))" using Cons.prems(2) by simp
  show ?case
  proof (cases "item a i \<and> lab i = 0")
    case True
    then have i: "i \<in> fg_cells a" using ib by (simp add: fg_cells_def)
    have fl: "set (flood (prod_list (shape a)) (item a) (shape a) [i]) = component_of a i"
      using i by (rule flood_component)
    from label_inv_step[OF Cons.prems(1) i] True
    have "label_inv a (insert i P) (\<lambda>j. if j \<in> component_of a i then Suc n else lab j) (Suc n)"
      by simp
    from Cons.IH[OF this rest] True show ?thesis by (simp add: fl)
  next
    case False
    from label_inv_skip[OF Cons.prems(1) False]
    have "label_inv a (insert i P) lab n" .
    from Cons.IH[OF this rest] False show ?thesis by auto
  qed
qed

lemma label_correct:
  "shape (fst (label a)) = shape a \<and>
   label_inv a (set (indices (shape a))) (item (fst (label a))) (snd (label a))"
proof -
  obtain lab n where l: "label_loop (item a) (shape a) (indices (shape a)) (\<lambda>idx. 0) 0 = (lab, n)"
    by (cases "label_loop (item a) (shape a) (indices (shape a)) (\<lambda>idx. 0) 0") auto
  from label_loop_inv[OF label_inv_init, of "indices (shape a)" a]
  have "label_inv a (set (indices (shape a))) lab n" by (simp add: l)
  then show ?thesis by (simp add: label_def l)
qed


lemma list_max_Max: "list_max xs = Max (insert 0 (set xs))"
  unfolding list_max_def using Max.set_eq_fold[of 0 xs] by simp

lemma list_max_nonempty: "xs \<noteq> [] \<Longrightarrow> list_max xs = Max (set xs)"
  unfolding list_max_Max by (cases xs) (auto simp: max_def intro: antisym)

lemma list_min_nonempty: "xs \<noteq> [] \<Longrightarrow> list_min xs = Min (set xs)"
proof (cases xs)
  case Nil
  assume "xs \<noteq> []"
  with Nil show ?thesis by simp
next
  case (Cons x rest)
  then show ?thesis using Min.set_eq_fold[of x rest] by simp
qed

lemma list_max_eqI:
  assumes "\<forall>x \<in> set xs. x \<le> m" "m = 0 \<or> m \<in> set xs"
  shows "list_max xs = m"
  unfolding list_max_Max using assms by (intro Max_eqI) auto

lemma chord_loop_all:
  assumes "\<forall>b \<in> set boxes. b \<noteq> []" "i + length boxes \<le> length lens"
  shows "chord_loop (map Some boxes) i lens =
     Inr (take i lens @ map (\<lambda>b. list_max (map (\<lambda>(s, t). t - s) b)) boxes
            @ drop (i + length boxes) lens)"
  using assms
proof (induction boxes arbitrary: i lens)
  case Nil
  then show ?case by simp
next
  case (Cons b boxes)
  let ?m = "list_max (map (\<lambda>(s, t). t - s) b)"
  have b: "b \<noteq> []" using Cons.prems(1) by simp
  have i: "i < length lens" using Cons.prems(2) by simp
  have "chord_loop (map Some (b # boxes)) i lens =
        chord_loop (map Some boxes) (Suc i) (lens[i := ?m])"
    using b i by (simp add: amax_def)
  also have "\<dots> = Inr (take (Suc i) (lens[i := ?m])
            @ map (\<lambda>b. list_max (map (\<lambda>(s, t). t - s) b)) boxes
            @ drop (Suc i + length boxes) (lens[i := ?m]))"
    using Cons.prems by (intro Cons.IH) simp_all
  also have "take (Suc i) (lens[i := ?m]) = take i lens @ [?m]"
    using i by (simp add: take_Suc_conv_app_nth)
  also have "drop (Suc i + length boxes) (lens[i := ?m]) = drop (Suc i + length boxes) lens"
    by simp
  finally show ?case by simp
qed

lemma box_sides:
  assumes "cells \<noteq> []" "0 < k"
  shows "list_max (map (\<lambda>(s, t). t - s) (bounding_box k cells)) = longest_side k (set cells)"
proof -
  have side: "(\<lambda>(s, t). t - s)
        (list_min (map (\<lambda>c. c ! d) cells), Suc (list_max (map (\<lambda>c. c ! d) cells))) =
      Max ((\<lambda>c. c ! d) ` set cells) - Min ((\<lambda>c. c ! d) ` set cells) + 1" for d
  proof -
    have ne: "map (\<lambda>c. c ! d) cells \<noteq> []" using assms(1) by simp
    have "Min ((\<lambda>c. c ! d) ` set cells) \<le> Max ((\<lambda>c. c ! d) ` set cells)"
      using assms(1) by (intro Min_le_iff[THEN iffD2]) (auto intro!: bexI[of _ "Max ((\<lambda>c. c ! d) ` set cells)"])
    then show ?thesis
      by (simp add: list_max_nonempty[OF ne] list_min_nonempty[OF ne])
  qed
  have "map (\<lambda>(s, t). t - s) (bounding_box k cells) =
      map (\<lambda>d. Max ((\<lambda>c. c ! d) ` set cells) - Min ((\<lambda>c. c ! d) ` set cells) + 1) [0..<k]"
    unfolding bounding_box_def map_map comp_def using side by simp
  moreover have "[0..<k] \<noteq> []" using assms(2) by simp
  ultimately show ?thesis
    by (simp add: list_max_nonempty longest_side_def atLeast0LessThan)
qed


lemma label_classes:
  assumes inv: "label_inv a (set (indices (shape a))) lab N"
  shows "\<And>i. i \<in> fg_cells a \<Longrightarrow> 0 < lab i \<and> lab i \<le> N \<and> {x. lab x = lab i} = component_of a i"
    and "\<And>l. 0 < l \<Longrightarrow> l \<le> N \<Longrightarrow> \<exists>i \<in> fg_cells a. lab i = l"
proof -
  from inv have le: "\<And>j. lab j \<le> N"
    and fg: "\<And>j. lab j \<noteq> 0 \<Longrightarrow> j \<in> fg_cells a"
    and cl: "\<And>x j. lab x \<noteq> 0 \<Longrightarrow> lab j = lab x \<longleftrightarrow> (x, j) \<in> (link a)\<^sup>*"
    and ex: "\<And>l. 0 < l \<Longrightarrow> l \<le> N \<Longrightarrow> \<exists>j. lab j = l"
    and pr: "\<And>p. p \<in> set (indices (shape a)) \<Longrightarrow> p \<in> fg_cells a \<Longrightarrow> lab p \<noteq> 0"
    unfolding label_inv_def by blast+
  show "0 < lab i \<and> lab i \<le> N \<and> {x. lab x = lab i} = component_of a i"
    if "i \<in> fg_cells a" for i
  proof -
    have nz: "lab i \<noteq> 0" using that fg_cells_indices pr by blast
    then have "{x. lab x = lab i} = component_of a i"
      using cl[OF nz] by (auto simp: component_of_def)
    with nz le[of i] show ?thesis by simp
  qed
  show "\<exists>i \<in> fg_cells a. lab i = l" if "0 < l" "l \<le> N" for l
  proof -
    from ex[OF that] obtain j where "lab j = l" by blast
    with that(1) fg[of j] show ?thesis by auto
  qed
qed

lemma label_components:
  assumes inv: "label_inv a (set (indices (shape a))) lab N"
  shows "components a = (\<lambda>l. {x. lab x = l}) ` {1..<Suc N}"
    and "inj_on (\<lambda>l. {x. lab x = l}) {1..<Suc N}"
proof -
  note c = label_classes[OF inv]
  show "components a = (\<lambda>l. {x. lab x = l}) ` {1..<Suc N}"
  proof (rule set_eqI, rule iffI)
    fix S assume "S \<in> components a"
    then obtain i where i: "i \<in> fg_cells a" "S = component_of a i"
      by (auto simp: components_def)
    from c(1)[OF i(1)] i(2) show "S \<in> (\<lambda>l. {x. lab x = l}) ` {1..<Suc N}"
      by (intro image_eqI[of _ _ "lab i"]) auto
  next
    fix S assume "S \<in> (\<lambda>l. {x. lab x = l}) ` {1..<Suc N}"
    then obtain l where "l \<in> {1..<Suc N}" and l3: "S = {x. lab x = l}" by blast
    then have l: "0 < l" "l \<le> N" "S = {x. lab x = l}" by auto
    from c(2)[OF l(1,2)] obtain i where i: "i \<in> fg_cells a" "lab i = l" by blast
    from c(1)[OF i(1)] i(2) l(3) have "S = component_of a i" by simp
    with i(1) show "S \<in> components a" by (auto simp: components_def)
  qed
  show "inj_on (\<lambda>l. {x. lab x = l}) {1..<Suc N}"
  proof (rule inj_onI)
    fix l m assume l: "l \<in> {1..<Suc N}" and m: "m \<in> {1..<Suc N}"
      and e: "{x. lab x = l} = {x. lab x = m}"
    from l c(2)[of l] obtain i where "lab i = l" by auto
    then have "i \<in> {x. lab x = m}" using e by auto
    with \<open>lab i = l\<close> show "l = m" by simp
  qed
qed

lemma chord_lengths_by_label:
  assumes k: "0 < ndim a"
  defines "lab \<equiv> item (fst (label a))" and "N \<equiv> snd (label a)"
  shows "chord_length_distribution a =
     Inr (map (\<lambda>l. longest_side (ndim a) {x. lab x = l}) [1..<Suc N])"
proof -
  have sh: "shape (fst (label a)) = shape a"
    and inv: "label_inv a (set (indices (shape a))) lab N"
    using label_correct[of a] by (simp_all add: lab_def N_def)
  note c = label_classes[OF inv]
  from inv have le: "\<And>j. lab j \<le> N" unfolding label_inv_def by blast
  define cells where "cells l = filter (\<lambda>idx. lab idx = l) (indices (shape a))" for l
  have set_cells: "set (cells l) = {x. lab x = l}" if "0 < l" for l
  proof -
    from inv have "\<And>j. lab j \<noteq> 0 \<Longrightarrow> j \<in> fg_cells a" unfolding label_inv_def by blast
    then have "{x. lab x = l} \<subseteq> set (indices (shape a))"
      using that fg_cells_indices[of a] by auto
    then show ?thesis by (auto simp: cells_def)
  qed
  have ne: "cells l \<noteq> []" if "0 < l" "l \<le> N" for l
  proof -
    from c(2)[OF that] obtain i where "lab i = l" by blast
    then have "i \<in> set (cells l)" using set_cells[OF that(1)] by simp
    then show ?thesis by auto
  qed
  have mx: "list_max (flat (fst (label a))) = N"
  proof (rule list_max_eqI)
    show "\<forall>x \<in> set (flat (fst (label a))). x \<le> N"
      using le by (auto simp: flat_def lab_def)
    show "N = 0 \<or> N \<in> set (flat (fst (label a)))"
    proof (cases "N = 0")
      case False
      then obtain i where i: "i \<in> fg_cells a" "lab i = N" using c(2)[of N] by auto
      then have "i \<in> set (indices (shape a))" using fg_cells_indices by blast
      with i(2) show ?thesis by (auto simp: flat_def sh lab_def intro!: image_eqI[of _ _ i])
    qed simp
  qed
  have fo: "find_objects (fst (label a)) =
      map Some (map (\<lambda>l. bounding_box (ndim a) (cells l)) [1..<Suc N])"
  proof -
    have nd: "ndim (fst (label a)) = ndim a" by (simp add: ndim_def sh)
    have fl: "filter (\<lambda>idx. item (fst (label a)) idx = l) (indices (shape (fst (label a)))) =
        cells l" for l
      by (simp add: cells_def lab_def sh)
    have "find_objects (fst (label a)) =
        map (\<lambda>l. case cells l of [] \<Rightarrow> None | c # cs \<Rightarrow> Some (bounding_box (ndim a) (c # cs)))
          [1..<Suc N]"
      unfolding find_objects_def mx nd fl by (rule refl)
    also have "\<dots> = map (\<lambda>l. Some (bounding_box (ndim a) (cells l))) [1..<Suc N]"
    proof (rule map_cong[OF refl])
      fix l assume "l \<in> set [1..<Suc N]"
      then have "cells l \<noteq> []" using ne[of l] by auto
      then show "(case cells l of [] \<Rightarrow> None | c # cs \<Rightarrow> Some (bounding_box (ndim a) (c # cs))) =
          Some (bounding_box (ndim a) (cells l))"
        by (cases "cells l") auto
    qed
    finally show ?thesis by simp
  qed
  have boxes: "\<forall>b \<in> set (map (\<lambda>l. bounding_box (ndim a) (cells l)) [1..<Suc N]). b \<noteq> []"
    using k by (auto simp: bounding_box_def)
  have "chord_length_distribution a =
      chord_loop (find_objects (fst (label a))) 0 (replicate N 0)"
    by (simp add: chord_length_distribution_def case_prod_beta N_def)
  also have "\<dots> =
      chord_loop (map Some (map (\<lambda>l. bounding_box (ndim a) (cells l)) [1..<Suc N])) 0
        (replicate N 0)"
    unfolding fo ..
  also have "\<dots> = Inr (map (\<lambda>b. list_max (map (\<lambda>(s, t). t - s) b))
                        (map (\<lambda>l. bounding_box (ndim a) (cells l)) [1..<Suc N]))"
    using chord_loop_all[OF boxes, of 0 "replicate N 0"] by simp
  also have "map (\<lambda>b. list_max (map (\<lambda>(s, t). t - s) b))
                 (map (\<lambda>l. bounding_box (ndim a) (cells l)) [1..<Suc N]) =
             map (\<lambda>l. longest_side (ndim a) {x. lab x = l}) [1..<Suc N]"
  proof -
    have "list_max (map (\<lambda>(s, t). t - s) (bounding_box (ndim a) (cells l))) =
        longest_side (ndim a) {x. lab x = l}" if "l \<in> set [1..<Suc N]" for l
    proof -
      from that have l: "0 < l" "l \<le> N" by auto
      from box_sides[OF ne[OF l] k] set_cells[OF l(1)] show ?thesis by simp
    qed
    then show ?thesis by (simp only: map_map comp_def cong: map_cong)
  qed
  finally show ?thesis .
qed

lemma chord_lengths_components:
  assumes "0 < ndim a"
  shows "\<exists>lens. chord_length_distribution a = Inr lens \<and>
           mset lens = image_mset (longest_side (ndim a)) (mset_set (components a))"
proof -
  define lab where "lab = item (fst (label a))"
  define N where "N = snd (label a)"
  have inv: "label_inv a (set (indices (shape a))) lab N"
    using label_correct[of a] by (simp add: lab_def N_def)
  note lc = label_components[OF inv]
  have "mset (map (\<lambda>l. longest_side (ndim a) {x. lab x = l}) [1..<Suc N]) =
        image_mset (longest_side (ndim a)) (image_mset (\<lambda>l. {x. lab x = l}) (mset [1..<Suc N]))"
    by (simp add: multiset.map_comp comp_def)
  also have "mset [1..<Suc N] = mset_set {1..<Suc N}" by (rule mset_upt)
  also have "image_mset (\<lambda>l. {x. lab x = l}) (mset_set {1..<Suc N}) = mset_set (components a)"
    unfolding lc(1) by (rule image_mset_mset_set[OF lc(2)])
  finally show ?thesis
    using chord_lengths_by_label[OF assms] by (simp add: lab_def N_def)
qed


lemma run_image_extent:
  assumes "0 < L"
  shows "Max ((\<lambda>t. c + t) ` {..<L}) - Min ((\<lambda>t. c + t) ` {..<L}) + 1 = (L::nat)"
proof -
  have mx: "Max ((\<lambda>t. c + t) ` {..<L}) = c + (L - 1)"
  proof (rule Max_eqI)
    show "finite ((\<lambda>t. c + t) ` {..<L})" by simp
    show "y \<le> c + (L - 1)" if "y \<in> (\<lambda>t. c + t) ` {..<L}" for y
      using that by auto
    show "c + (L - 1) \<in> (\<lambda>t. c + t) ` {..<L}"
      using assms by (intro image_eqI[of _ _ "L - 1"]) simp_all
  qed
  have mn: "Min ((\<lambda>t. c + t) ` {..<L}) = c"
    using assms by (intro Min_eqI) auto
  show ?thesis using assms by (simp add: mx mn)
qed

lemma straight_run_single_chord:
  assumes ax: "ax < ndim a" and p: "in_bounds (shape a) p" and L: "0 < L"
    and fit: "p ! ax + L \<le> shape a ! ax"
    and img: "\<forall>idx. in_bounds (shape a) idx \<longrightarrow>
                (item a idx \<longleftrightarrow> (\<exists>t < L. idx = p[ax := p ! ax + t]))"
  shows "chord_length_distribution a = Inr [L]"
proof -
  define run where "run t = p[ax := p ! ax + t]" for t
  have lp: "length p = length (shape a)" using p by (rule in_bounds_length)
  have axl: "ax < length p" using ax lp by (simp add: ndim_def)
  have run_nth: "run t ! d = (if d = ax then p ! ax + t else p ! d)" if "d < length p" for t d
    using that by (simp add: run_def nth_list_update)
  have run_b: "in_bounds (shape a) (run t)" if "t < L" for t
    unfolding in_bounds_nth
  proof (intro conjI allI impI)
    show "length (run t) = length (shape a)" by (simp add: run_def lp)
    fix d assume d: "d < length (shape a)"
    with p have "p ! d < shape a ! d" by (simp add: in_bounds_nth)
    moreover have "p ! ax + t < shape a ! ax" using that fit by simp
    ultimately show "run t ! d < shape a ! d" using d lp by (simp add: run_nth)
  qed
  have fg: "fg_cells a = run ` {..<L}"
  proof
    show "fg_cells a \<subseteq> run ` {..<L}" using img by (auto simp: fg_cells_def run_def)
    show "run ` {..<L} \<subseteq> fg_cells a"
    proof
      fix i assume "i \<in> run ` {..<L}"
      then obtain t where t: "t < L" "i = run t" by auto
      with run_b[OF t(1)] img show "i \<in> fg_cells a" by (auto simp: fg_cells_def run_def)
    qed
  qed
  have step: "(run t, run (Suc t)) \<in> link a" if "Suc t < L" for t
  proof -
    have "adjacent (run t) (run (Suc t))"
      unfolding adjacent_def using axl
      by (auto simp: run_nth intro!: exI[of _ ax]) (simp_all add: run_def)
    moreover have "run t \<in> fg_cells a" "run (Suc t) \<in> fg_cells a" using that fg by auto
    ultimately show ?thesis by (simp add: link_def)
  qed
  have reach: "(run 0, run t) \<in> (link a)\<^sup>*" if "t < L" for t
    using that
  proof (induction t)
    case 0
    then show ?case by simp
  next
    case (Suc t)
    then have "(run 0, run t) \<in> (link a)\<^sup>*" by simp
    from this step[OF Suc.prems] show ?case by (rule rtrancl_into_rtrancl)
  qed
  have comp: "component_of a i = fg_cells a" if "i \<in> fg_cells a" for i
  proof
    show "component_of a i \<subseteq> fg_cells a" using that by (rule component_subset)
    from that fg obtain t where t: "t < L" "i = run t" by auto
    have i0: "(i, run 0) \<in> (link a)\<^sup>*"
      using reach[OF t(1)] t(2) by (auto intro: link_rtrancl_sym)
    show "fg_cells a \<subseteq> component_of a i"
    proof
      fix j assume "j \<in> fg_cells a"
      with fg obtain u where "u < L" "j = run u" by auto
      with reach[of u] have "(run 0, j) \<in> (link a)\<^sup>*" by simp
      with i0 have "(i, j) \<in> (link a)\<^sup>*" by (rule rtrancl_trans)
      then show "j \<in> component_of a i" by (simp add: component_of_def)
    qed
  qed
  have ne: "fg_cells a \<noteq> {}" using fg L by auto
  have comps: "components a = {fg_cells a}"
    using comp ne by (auto simp: components_def)
  have side: "Max ((\<lambda>c. c ! d) ` fg_cells a) - Min ((\<lambda>c. c ! d) ` fg_cells a) + 1 =
      (if d = ax then L else 1)" if "d < ndim a" for d
  proof (cases "d = ax")
    case True
    have "(\<lambda>c. c ! d) ` fg_cells a = (\<lambda>t. p ! ax + t) ` {..<L}"
      unfolding fg image_image using axl True by (simp add: run_nth)
    then show ?thesis using True run_image_extent[OF L, of "p ! ax"] by simp
  next
    case False
    have dl: "d < length p" using that lp by (simp add: ndim_def)
    have "(\<lambda>c. c ! d) ` fg_cells a = (\<lambda>t. p ! d) ` {..<L}"
      unfolding fg image_image using dl False by (simp add: run_nth)
    also have "\<dots> = {p ! d}" using L by auto
    finally show ?thesis using False by simp
  qed
  have "longest_side (ndim a) (fg_cells a) = L"
    unfolding longest_side_def
  proof (rule Max_eqI)
    show "finite ((\<lambda>d. Max ((\<lambda>c. c ! d) ` fg_cells a) - Min ((\<lambda>c. c ! d) ` fg_cells a) + 1)
        ` {..<ndim a})" by simp
    show "y \<le> L" if "y \<in> (\<lambda>d. Max ((\<lambda>c. c ! d) ` fg_cells a)
        - Min ((\<lambda>c. c ! d) ` fg_cells a) + 1) ` {..<ndim a}" for y
    proof -
      from that obtain d where d: "d < ndim a"
        and y: "y = Max ((\<lambda>c. c ! d) ` fg_cells a) - Min ((\<lambda>c. c ! d) ` fg_cells a) + 1"
        by auto
      from side[OF d] y L show ?thesis by (auto split: if_splits)
    qed
    show "L \<in> (\<lambda>d. Max ((\<lambda>c. c ! d) ` fg_cells a) - Min ((\<lambda>c. c ! d) ` fg_cells a) + 1)
        ` {..<ndim a}"
      using side[OF ax] ax by (intro image_eqI[of _ _ ax]) simp_all
  qed
  moreover from chord_lengths_components[of a] ax
  obtain lens where lens: "chord_length_distribution a = Inr lens"
    "mset lens = image_mset (longest_side (ndim a)) (mset_set (components a))"
    by auto
  ultimately have "mset lens = {#L#}" by (simp add: comps)
  then have "lens = [L]" by (metis mset_single_iff_right)
  with lens(1) show ?thesis by simp
qed

text \<open>
  Claim C9. For an image of at least one dimension, \<open>chord_length_distribution\<close>
  returns one value per connected component of the image, the value being the longest
  side of the component's minimal bounding box (as multisets: the order of the values is
  the order of the labels). In particular, on an image whose void cells are exactly a
  straight run of \<open>L\<close> cells along one axis, it returns the one-element list \<open>[L]\<close>.
\<close>

theorem chord_length_distribution_components:
  "(0 < ndim im \<longrightarrow>
      (\<exists>lens. chord_length_distribution im = Inr lens \<and>
          mset lens = image_mset (longest_side (ndim im)) (mset_set (components im))))
   \<and> (ax < ndim im \<longrightarrow> in_bounds (shape im) p \<longrightarrow> 0 < L \<longrightarrow> p ! ax + L \<le> shape im ! ax \<longrightarrow>
      (\<forall>idx. in_bounds (shape im) idx \<longrightarrow>
          (item im idx \<longleftrightarrow> (\<exists>t < L. idx = p[ax := p ! ax + t]))) \<longrightarrow>
      chord_length_distribution im = Inr [L])"
  using chord_lengths_components[of im] straight_run_single_chord[of ax im p L] by blast

theorem chord_length_distribution_components_witness:
  "in_bounds [3, 5] [1, 1] \<and> (1::nat) + 3 \<le> 5
   \<and> chord_length_distribution
       \<lparr>shape = [3, 5], item = (\<lambda>idx. idx \<in> {[1, 1], [1, 2], [1, 3]})\<rparr> = Inr [3]"
proof -
  let ?g = "\<lparr>shape = [3, 5], item = (\<lambda>idx. idx \<in> {[1::nat, 1], [1, 2], [1, 3]})\<rparr>"
  have b: "in_bounds (shape ?g) [1, 1]" by (simp add: in_bounds_def)
  have t3: "(\<exists>t < 3. P t) \<longleftrightarrow> P 0 \<or> P 1 \<or> P (2::nat)" for P
    by (auto simp: numeral_3_eq_3 less_Suc_eq numeral_2_eq_2)
  have h: "\<forall>idx. in_bounds (shape ?g) idx \<longrightarrow>
      (item ?g idx \<longleftrightarrow> (\<exists>t < 3. idx = [1, 1][1 := [1, 1] ! 1 + t]))"
    unfolding t3 by auto
  have "chord_length_distribution ?g = Inr [3]"
    using chord_length_distribution_components[of ?g 1 "[1, 1]" 3] b h
    by (simp add: ndim_def)
  then show ?thesis using b by simp
qed


end
